theory Spec2Isabelle
  imports Main "HOL-Library.Word" "HOL-Library.Sublist"
begin

section \<open>The adb runner of the WebPageTest agent (agent/js/src/adb.js)\<close>

text \<open>
  A shallow embedding of \<^verbatim>\<open>adb.js\<close>. JavaScript strings are \<^typ>\<open>string\<close>
  (a list of code units, here the code units U+0000 .. U+00FF), a Buffer is a view on a
  backing store of bytes that lives in an explicit heap, a promise is the value it settles
  with (\<open>Inl\<close> a rejection, \<open>Inr\<close> the resolved value), and an optional argument is an
  \<open>option\<close> (\<open>None\<close> is JavaScript's \<^verbatim>\<open>undefined\<close>).
\<close>

subsection \<open>Promises and errors\<close>

text \<open>
  The two \<^verbatim>\<open>Error\<close>s that \<^verbatim>\<open>getPidsOfProcess\<close> throws are kept with the arguments of
  their \<^verbatim>\<open>util.format\<close> message; a rejection of the scheduled process is whatever the
  executor reports.
\<close>

datatype 'e error =
    ExecFailed 'e
  | PsCommandFailed string
  | PsParseFailed nat string

text \<open>\<^verbatim>\<open>promise.then(f)\<close>: a rejection skips the callback, a throw in it rejects.\<close>

definition then_do :: "'e + 'a \<Rightarrow> ('a \<Rightarrow> 'e + 'b) \<Rightarrow> 'e + 'b" where
  "then_do p f = (case p of Inl e \<Rightarrow> Inl e | Inr v \<Rightarrow> f v)"

subsection \<open>Scheduling commands\<close>

text \<open>\<^verbatim>\<open>exports.DEFAULT_TIMEOUT = 60000\<close>\<close>

definition DEFAULT_TIMEOUT :: int where
  "DEFAULT_TIMEOUT = 60000"

text \<open>
  \<^verbatim>\<open>timeout || exports.DEFAULT_TIMEOUT\<close> on an optional number of milliseconds: the
  falsy numbers are \<^verbatim>\<open>undefined\<close> and \<open>0\<close> (timeouts are integers here, so
  \<^verbatim>\<open>NaN\<close> does not arise).
\<close>

definition falsy_timeout :: "int option \<Rightarrow> bool" where
  "falsy_timeout timeout = (case timeout of None \<Rightarrow> True | Some t \<Rightarrow> t = 0)"

definition timeout_or_default :: "int option \<Rightarrow> int" where
  "timeout_or_default timeout =
     (case timeout of None \<Rightarrow> DEFAULT_TIMEOUT
      | Some t \<Rightarrow> if t = 0 then DEFAULT_TIMEOUT else t)"

text \<open>
  The object that \<^verbatim>\<open>function Adb(app, serial, adbCommand)\<close> constructs. The
  constructor picks the command as
  \<^verbatim>\<open>adbCommand || process.env.ANDROID_ADB || 'adb'\<close>; the empty string is falsy.
\<close>

record 'app Adb =
  app :: 'app
  adbCommand :: string
  serial :: string

definition str_or :: "string option \<Rightarrow> string option \<Rightarrow> string option" where
  "str_or a b = (case a of None \<Rightarrow> b | Some s \<Rightarrow> if s = [] then b else Some s)"

definition new_Adb :: "string option \<Rightarrow> 'app \<Rightarrow> string \<Rightarrow> string option \<Rightarrow> 'app Adb" where
  "new_Adb env_ANDROID_ADB a s cmd =
     \<lparr> app = a,
       adbCommand = (case str_or (str_or cmd env_ANDROID_ADB) (Some ''adb'') of
                       Some c \<Rightarrow> c | None \<Rightarrow> ''adb''),
       serial = s \<rparr>"

text \<open>
  \<^verbatim>\<open>process_utils.scheduleExec(app, command, args, options, timeout)\<close> is not part of
  this file: it is the parameter \<open>scheduleExec\<close> of every function that dispatches a
  command, and its result is the value of the promise it returns.
\<close>

type_synonym ('app, 'opts, 'r) scheduleExec =
  "'app \<Rightarrow> string \<Rightarrow> string list \<Rightarrow> 'opts option \<Rightarrow> int \<Rightarrow> 'r"

text \<open>\<^verbatim>\<open>Adb.prototype.command_\<close>\<close>

definition command :: "('app, 'opts, 'r) scheduleExec \<Rightarrow> 'app Adb \<Rightarrow>
    string list \<Rightarrow> 'opts option \<Rightarrow> int option \<Rightarrow> 'r" where
  "command scheduleExec this args options timeout =
     scheduleExec (app this) (adbCommand this) args options (timeout_or_default timeout)"

text \<open>\<^verbatim>\<open>Adb.prototype.adb\<close>\<close>

definition adb :: "('app, 'opts, 'r) scheduleExec \<Rightarrow> 'app Adb \<Rightarrow>
    string list \<Rightarrow> 'opts option \<Rightarrow> int option \<Rightarrow> 'r" where
  "adb scheduleExec this args options timeout =
     command scheduleExec this ([''-s'', serial this] @ args) options timeout"

text \<open>\<^verbatim>\<open>Adb.prototype.shell\<close>\<close>

definition shell :: "('app, 'opts, 'r) scheduleExec \<Rightarrow> 'app Adb \<Rightarrow>
    string list \<Rightarrow> 'opts option \<Rightarrow> int option \<Rightarrow> 'r" where
  "shell scheduleExec this args options timeout =
     adb scheduleExec this ([''shell''] @ args) options timeout"

text \<open>
  \<^verbatim>\<open>Adb.prototype.exists\<close>: the callback compares the whole resolved stdout with the
  string \<^verbatim>\<open>'0'\<close> by \<^verbatim>\<open>===\<close>.
\<close>

definition exists_cmd :: "string \<Rightarrow> string list" where
  "exists_cmd path = [''ls'', path, ''>'', ''/dev/null'', ''2>&1'', '';'', ''echo'', ''$?'']"

definition exists :: "('app, 'opts, 'e error + string) scheduleExec \<Rightarrow> 'app Adb \<Rightarrow>
    string \<Rightarrow> 'e error + bool" where
  "exists scheduleExec this path =
     then_do (shell scheduleExec this (exists_cmd path) None None)
       (\<lambda>stdout. Inr (stdout = ''0''))"

subsection \<open>Strings: \<^verbatim>\<open>indexOf\<close> and \<^verbatim>\<open>split\<close> on a regular expression\<close>

definition CR :: char where "CR = CHR 0x0D"
definition LF :: char where "LF = CHR 0x0A"

text \<open>
  \<^verbatim>\<open>s.indexOf(t)\<close>: the least position at which \<open>t\<close> occurs in \<open>s\<close>, or \<open>-1\<close>.
\<close>

fun indexOf_from :: "int \<Rightarrow> string \<Rightarrow> string \<Rightarrow> int" where
  "indexOf_from k [] t = (if t = [] then k else -1)"
| "indexOf_from k (c # cs) t =
     (if prefix t (c # cs) then k else indexOf_from (k + 1) cs t)"

definition indexOf :: "string \<Rightarrow> string \<Rightarrow> int" where
  "indexOf s t = indexOf_from 0 s t"

text \<open>
  \<^verbatim>\<open>S.split(R)\<close> for a regular expression without capture groups (ECMAScript 5,
  15.5.4.14). \<open>m\<close> is SplitMatch: applied to the rest of the string at position \<open>q\<close> it
  gives the length of the match of \<open>R\<close> that starts there, \<open>piece\<close> is the substring from
  \<open>p\<close> to \<open>q\<close>. An empty match at \<open>q = p\<close> moves on by one character, as does a failed
  match; any other match ends the piece. The loop runs while \<open>q < size\<close>, then the last
  piece is added. (For the empty string the standard returns no piece if \<open>R\<close> matches
  it and one empty piece otherwise.)
\<close>

fun split_from :: "(string \<Rightarrow> nat option) \<Rightarrow> string \<Rightarrow> string \<Rightarrow> string list" where
  "split_from m piece [] = [piece]"
| "split_from m piece (c # cs) =
     (case m (c # cs) of
        None \<Rightarrow> split_from m (piece @ [c]) cs
      | Some 0 \<Rightarrow> (if piece = [] then split_from m [c] cs
                  else piece # split_from m [c] cs)
      | Some (Suc n) \<Rightarrow> piece # split_from m [] (drop n cs))"

definition split :: "(string \<Rightarrow> nat option) \<Rightarrow> string \<Rightarrow> string list" where
  "split m s = (if s = [] then (if m [] = None then [[]] else []) else split_from m [] s)"

text \<open>\<^verbatim>\<open>/\r?\n/\<close> at the head of a string: the optional \<^verbatim>\<open>\r\<close> is greedy.\<close>

fun re_newline :: "string \<Rightarrow> nat option" where
  "re_newline (c # d # cs) =
     (if c = CR \<and> d = LF then Some 2 else if c = LF then Some 1 else None)"
| "re_newline [c] = (if c = LF then Some 1 else None)"
| "re_newline [] = None"

text \<open>
  \<^verbatim>\<open>\s\<close> on the code units up to U+00FF: tab, line feed, vertical tab, form feed,
  carriage return, space and no-break space.
\<close>

definition is_space :: "char \<Rightarrow> bool" where
  "is_space c = (c \<in> set [CHR 0x09, CHR 0x0A, CHR 0x0B, CHR 0x0C, CHR 0x0D, CHR 0x20, CHR 0xA0])"

text \<open>\<^verbatim>\<open>/\s+/\<close> at the head of a string: the longest run of white space, if not empty.\<close>

definition re_spaces :: "string \<Rightarrow> nat option" where
  "re_spaces s = (let n = length (takeWhile is_space s) in if n = 0 then None else Some n)"

subsection \<open>\<^verbatim>\<open>Adb.prototype.getPidsOfProcess\<close>\<close>

text \<open>
  The body of the callback of \<^verbatim>\<open>lines.forEach\<close>, on the array \<open>pids\<close> built so far:
  \<open>Inl\<close> is the \<^verbatim>\<open>throw\<close>. \<^verbatim>\<open>fields[0]\<close> is read only when the array has it
  (\<^verbatim>\<open>undefined === 'USER'\<close> is false), \<^verbatim>\<open>fields[1]\<close> only past the test for nine fields.
\<close>

definition ps_line :: "string \<Rightarrow> string \<Rightarrow> nat \<Rightarrow> string list \<Rightarrow> 'e error + string list" where
  "ps_line stdout line iLine pids =
     (if length line = 0 then Inr pids
      else
        let fields = split re_spaces line in
        if iLine = 0 \<and> 0 < length fields \<and> fields ! 0 = ''USER'' then Inr pids
        else if length fields \<noteq> 9 then Inl (PsParseFailed iLine stdout)
        else Inr (pids @ [fields ! 1]))"

text \<open>\<^verbatim>\<open>array.forEach(f)\<close> from index \<open>i\<close> on, with the state the callback updates.\<close>

fun forEach :: "('a \<Rightarrow> nat \<Rightarrow> 's \<Rightarrow> 'x + 's) \<Rightarrow> 'a list \<Rightarrow> nat \<Rightarrow> 's \<Rightarrow> 'x + 's" where
  "forEach f [] i s = Inr s"
| "forEach f (x # xs) i s =
     (case f x i s of Inl e \<Rightarrow> Inl e | Inr s' \<Rightarrow> forEach f xs (Suc i) s')"

text \<open>The callback of \<^verbatim>\<open>this.shell(['ps', name]).then\<close>.\<close>

definition parse_ps :: "string \<Rightarrow> 'e error + string list" where
  "parse_ps stdout =
     (case split re_newline stdout of
        [] \<Rightarrow> Inl (PsCommandFailed stdout)
      | line0 # rest \<Rightarrow>
          if indexOf line0 ''USER '' \<noteq> 0 then Inl (PsCommandFailed stdout)
          else forEach (ps_line stdout) (line0 # rest) 0 [])"

definition getPidsOfProcess :: "('app, 'opts, 'e error + string) scheduleExec \<Rightarrow> 'app Adb \<Rightarrow>
    string \<Rightarrow> 'e error + string list" where
  "getPidsOfProcess scheduleExec this name =
     then_do (shell scheduleExec this [''ps'', name] None None) parse_ps"

subsection \<open>Buffers\<close>

text \<open>
  The heap holds the backing stores of the Buffers, one list of bytes each, in the order
  of their allocation. A Buffer object is a view on one of them: \<^verbatim>\<open>slice\<close> makes a
  new view on the same store.
\<close>

type_synonym byte = "8 word"
type_synonym heap = "byte list list"

record buffer =
  store :: nat
  offset :: nat
  blength :: nat

definition valid_buffer :: "heap \<Rightarrow> buffer \<Rightarrow> bool" where
  "valid_buffer h b =
     (store b < length h \<and> offset b + blength b \<le> length (h ! store b))"

text \<open>The bytes that a Buffer shows.\<close>

definition bytes_of :: "heap \<Rightarrow> buffer \<Rightarrow> byte list" where
  "bytes_of h b = take (blength b) (drop (offset b) (h ! store b))"

text \<open>
  \<^verbatim>\<open>new Buffer(n)\<close>: a new store of \<open>n\<close> bytes that are not initialised; \<open>junk\<close> says
  what they happen to be.
\<close>

definition new_Buffer :: "(nat \<Rightarrow> byte) \<Rightarrow> nat \<Rightarrow> heap \<Rightarrow> buffer \<times> heap" where
  "new_Buffer junk n h =
     (\<lparr> store = length h, offset = 0, blength = n \<rparr>, h @ [map junk [0..<n]])"

text \<open>Memory that happens to hold zeros, for the examples.\<close>

definition zeros :: "nat \<Rightarrow> byte" where
  "zeros i = 0"

text \<open>\<^verbatim>\<open>buf[i]\<close>: \<^verbatim>\<open>undefined\<close> (\<open>None\<close>) past the end.\<close>

definition buf_get :: "heap \<Rightarrow> buffer \<Rightarrow> nat \<Rightarrow> byte option" where
  "buf_get h b i =
     (if i < blength b then Some (h ! store b ! (offset b + i)) else None)"

text \<open>\<^verbatim>\<open>buf[i] = v\<close>: no effect past the end.\<close>

definition buf_set :: "heap \<Rightarrow> buffer \<Rightarrow> nat \<Rightarrow> byte \<Rightarrow> heap" where
  "buf_set h b i v =
     (if i < blength b then h[store b := (h ! store b)[offset b + i := v]] else h)"

datatype buffer_error =
    SourceEndBeforeStart
  | TargetStartOutOfBounds
  | SourceStartOutOfBounds
  | SourceEndOutOfBounds
  | SliceOutOfBounds

text \<open>
  \<^verbatim>\<open>source.copy(target, targetStart, sourceStart, sourceEnd)\<close> of Node's Buffer: the
  bytes are read before any is written (\<^verbatim>\<open>memmove\<close>), and not more are copied than
  the target has room for. Indices out of range are an error, as in the releases of Node
  that the agent was written for (later ones clamp them).
\<close>

definition buf_copy :: "heap \<Rightarrow> buffer \<Rightarrow> buffer \<Rightarrow> nat \<Rightarrow> nat \<Rightarrow> nat \<Rightarrow> buffer_error + heap" where
  "buf_copy h source target targetStart sourceStart sourceEnd =
     (if sourceEnd < sourceStart then Inl SourceEndBeforeStart
      else if sourceEnd = sourceStart then Inr h
      else if targetStart \<ge> blength target then Inl TargetStartOutOfBounds
      else if sourceStart \<ge> blength source then Inl SourceStartOutOfBounds
      else if sourceEnd > blength source then Inl SourceEndOutOfBounds
      else
        let to_copy = min (sourceEnd - sourceStart) (blength target - targetStart);
            data = take to_copy (drop sourceStart (bytes_of h source));
            t = h ! store target;
            at = offset target + targetStart
        in Inr (h[store target := take at t @ data @ drop (at + to_copy) t]))"

text \<open>\<^verbatim>\<open>buf.slice(start, end)\<close>: a view, an error when out of range.\<close>

definition buf_slice :: "buffer \<Rightarrow> nat \<Rightarrow> nat \<Rightarrow> buffer_error + buffer" where
  "buf_slice b start stop =
     (if stop > blength b \<or> start > stop then Inl SliceOutOfBounds
      else Inr \<lparr> store = store b, offset = offset b + start, blength = stop - start \<rparr>)"

subsection \<open>\<^verbatim>\<open>Adb.prototype.dos2unix\<close>\<close>

text \<open>
  \<^verbatim>\<open>s.replace(/\r\n/g, '\n')\<close>: the matches are found from left to right and do not
  overlap. The function is written for any type of unit, with the two units of the
  pattern as parameters, so that it also says what the spec asks of a byte sequence.
\<close>

fun replace_crlf :: "'a \<Rightarrow> 'a \<Rightarrow> 'a list \<Rightarrow> 'a list" where
  "replace_crlf cr lf (x # y # zs) =
     (if x = cr \<and> y = lf then lf # replace_crlf cr lf zs
      else x # replace_crlf cr lf (y # zs))"
| "replace_crlf cr lf [x] = [x]"
| "replace_crlf cr lf [] = []"

text \<open>
  The \<^verbatim>\<open>for\<close> loop of the Buffer case. \<open>aft\<close> is \<^verbatim>\<open>origPosAfterNewline\<close>. The lengths
  \<^verbatim>\<open>copyLen\<close> and \<^verbatim>\<open>tailLen\<close> are only used when positive, so the truncating
  subtraction of \<^typ>\<open>nat\<close> takes the same branches as the source.
\<close>

function dos2unix_loop :: "buffer \<Rightarrow> buffer \<Rightarrow> nat \<Rightarrow> nat \<Rightarrow> nat \<Rightarrow> nat \<Rightarrow> heap \<Rightarrow>
    buffer_error + (nat \<times> nat \<times> heap)" where
  "dos2unix_loop origBuf retBuf origLen origPos aft retLen h =
     (if origPos < origLen then
        if Some 10 = buf_get h origBuf origPos \<and> Some 13 = buf_get h origBuf (origPos - 1) then
          let copyLen = origPos - aft - 1 in
          case (if copyLen > 0
                then (case buf_copy h origBuf retBuf retLen aft (origPos - 1) of
                        Inl e \<Rightarrow> Inl e
                      | Inr h1 \<Rightarrow> Inr (retLen + copyLen, h1))
                else Inr (retLen, h)) of
            Inl e \<Rightarrow> Inl e
          | Inr (retLen1, h1) \<Rightarrow>
              dos2unix_loop origBuf retBuf origLen (origPos + 1) (origPos + 1) (retLen1 + 1)
                (buf_set h1 retBuf retLen1 10)
        else dos2unix_loop origBuf retBuf origLen (origPos + 1) aft retLen h
      else Inr (aft, retLen, h))"
  by pat_completeness auto
termination
  by (relation "measure (\<lambda>(origBuf, retBuf, origLen, origPos, r). origLen - origPos)") auto

declare dos2unix_loop.simps [simp del]

text \<open>The Buffer case as a whole: the result is the returned Buffer and the heap.\<close>

definition dos2unix_Buffer :: "(nat \<Rightarrow> byte) \<Rightarrow> heap \<Rightarrow> buffer \<Rightarrow> buffer_error + (buffer \<times> heap)" where
  "dos2unix_Buffer junk h origBuf =
     (let origLen = blength origBuf;
          (retBuf, h0) = new_Buffer junk origLen h
      in case dos2unix_loop origBuf retBuf origLen 1 0 0 h0 of
           Inl e \<Rightarrow> Inl e
         | Inr (aft, retLen, h1) \<Rightarrow>
             let tailLen = origLen - aft in
             case (if tailLen > 0
                   then (case buf_copy h1 origBuf retBuf retLen aft origLen of
                           Inl e \<Rightarrow> Inl e
                         | Inr h2 \<Rightarrow> Inr (retLen + tailLen, h2))
                   else Inr (retLen, h1)) of
               Inl e \<Rightarrow> Inl e
             | Inr (retLen2, h2) \<Rightarrow>
                 if retLen2 < blength retBuf
                 then (case buf_slice retBuf 0 retLen2 of
                         Inl e \<Rightarrow> Inl e
                       | Inr r \<Rightarrow> Inr (r, h2))
                 else Inr (retBuf, h2))"

text \<open>
  The argument of \<^verbatim>\<open>dos2unix\<close> is a string or a Buffer, or one of the values that stand
  for none. The falsy ones are \<^verbatim>\<open>null\<close>, \<^verbatim>\<open>undefined\<close> and the empty string; an
  object, also an empty Buffer, is truthy.
\<close>

datatype js_value = Null | Undefined | Str string | Buf buffer

fun falsy :: "js_value \<Rightarrow> bool" where
  "falsy Null = True"
| "falsy Undefined = True"
| "falsy (Str s) = (s = [])"
| "falsy (Buf b) = False"

definition dos2unix :: "(nat \<Rightarrow> byte) \<Rightarrow> heap \<Rightarrow> js_value \<Rightarrow> buffer_error + (js_value \<times> heap)" where
  "dos2unix junk h origBuf =
     (if falsy origBuf then Inr (origBuf, h)
      else case origBuf of
             Buf b \<Rightarrow> (case dos2unix_Buffer junk h b of
                         Inl e \<Rightarrow> Inl e
                       | Inr (r, h') \<Rightarrow> Inr (Buf r, h'))
           | Str s \<Rightarrow> Inr (Str (replace_crlf CR LF s), h)
           | _ \<Rightarrow> Inr (origBuf, h))"

section \<open>What the specification says\<close>

text \<open>
  Normalisation of a byte sequence in the words of the specification: every pair
  \<open>0x0D 0x0A\<close> becomes a single \<open>0x0A\<close> and every other byte stays as it is, in
  its place. A pair begins with \<open>0x0D\<close> and ends with \<open>0x0A\<close>, so two pairs never
  overlap and replacing them from the left replaces each of them.
\<close>

definition normalize_spec :: "byte list \<Rightarrow> byte list" where
  "normalize_spec b = replace_crlf 0x0D 0x0A b"

text \<open>
  The same by positions: the bytes of \<open>b\<close> in their order, without each \<open>cr\<close> that
  has an \<open>lf\<close> right after it.
\<close>

definition without_cr_before_lf :: "'a \<Rightarrow> 'a \<Rightarrow> 'a list \<Rightarrow> 'a list" where
  "without_cr_before_lf cr lf b =
     map (\<lambda>i. b ! i)
       (filter (\<lambda>i. \<not> (b ! i = cr \<and> Suc i < length b \<and> b ! Suc i = lf)) [0..<length b])"

text \<open>\<open>b\<close> contains a pair \<open>cr lf\<close>.\<close>

fun has_crlf :: "'a \<Rightarrow> 'a \<Rightarrow> 'a list \<Rightarrow> bool" where
  "has_crlf cr lf (x # y # zs) = ((x = cr \<and> y = lf) \<or> has_crlf cr lf (y # zs))"
| "has_crlf cr lf [x] = False"
| "has_crlf cr lf [] = False"

text \<open>\<open>b\<close> contains a \<open>cr\<close> right before a pair \<open>cr lf\<close>.\<close>

fun has_crcrlf :: "'a \<Rightarrow> 'a \<Rightarrow> 'a list \<Rightarrow> bool" where
  "has_crcrlf cr lf (x # y # z # zs) =
     ((x = cr \<and> y = cr \<and> z = lf) \<or> has_crcrlf cr lf (y # z # zs))"
| "has_crcrlf cr lf [x, y] = False"
| "has_crcrlf cr lf [x] = False"
| "has_crcrlf cr lf [] = False"

text \<open>
  The parsing protocol of \<^verbatim>\<open>listProcessIdsByName\<close> in the words of the specification,
  written without the regular expressions and without \<open>split\<close>.

  Step 1, lines: a line ends at a line feed; the carriage return right before that line
  feed belongs to the line end. What follows the last line feed is the last line.
\<close>

definition chop_cr :: "string \<Rightarrow> string" where
  "chop_cr line = (if line \<noteq> [] \<and> last line = CR then butlast line else line)"

function lines_on_newline :: "string \<Rightarrow> string list" where
  "lines_on_newline s =
     (let line = takeWhile (\<lambda>c. c \<noteq> LF) s;
          rest = dropWhile (\<lambda>c. c \<noteq> LF) s
      in if rest = [] then [line]
         else chop_cr line # lines_on_newline (tl rest))"
  by pat_completeness auto
termination
proof (relation "measure length")
  fix s :: string and line rest :: string
  assume rest: "rest = dropWhile (\<lambda>c. c \<noteq> LF) s" and ne: "rest \<noteq> []"
  have "length rest \<le> length s" unfolding rest by (rule length_dropWhile_le)
  moreover have "length (tl rest) < length rest" using ne by simp
  ultimately show "(tl rest, s) \<in> measure length" by simp
qed simp

declare lines_on_newline.simps [simp del]

text \<open>
  White space by code point: U+0009 to U+000D, U+0020 and U+00A0 (the white space and
  line terminators of ECMAScript 5 among the code units up to U+00FF).
\<close>

definition white_space :: "char \<Rightarrow> bool" where
  "white_space c =
     (let n = (of_char c :: nat) in (9 \<le> n \<and> n \<le> 13) \<or> n = 32 \<or> n = 160)"

text \<open>
  Step 5, fields: a field is a longest stretch without white space, and a whole run of
  white space separates two fields. White space at the start or at the end of the line
  has an empty field before or after it.
\<close>

function fields_on_whitespace :: "string \<Rightarrow> string list" where
  "fields_on_whitespace s =
     (let field = takeWhile (\<lambda>c. \<not> white_space c) s;
          rest = dropWhile (\<lambda>c. \<not> white_space c) s
      in if rest = [] then [field]
         else field # fields_on_whitespace (dropWhile white_space rest))"
  by pat_completeness auto
termination
proof (relation "measure length")
  fix s :: string and field rest :: string
  assume rest: "rest = dropWhile (\<lambda>c. \<not> white_space c) s" and ne: "rest \<noteq> []"
  from ne have "\<not> \<not> white_space (hd rest)"
    unfolding rest by (rule hd_dropWhile)
  moreover from ne have "rest = hd rest # tl rest" by simp
  ultimately have "dropWhile white_space rest = dropWhile white_space (tl rest)"
    by (metis dropWhile.simps(2))
  then have "length (dropWhile white_space rest) \<le> length (tl rest)"
    by (simp only: length_dropWhile_le)
  moreover have "length (tl rest) < length rest" using ne by simp
  moreover have "length rest \<le> length s" unfolding rest by (rule length_dropWhile_le)
  ultimately show "(dropWhile white_space rest, s) \<in> measure length" by simp
qed simp

declare fields_on_whitespace.simps [simp del]

text \<open>A string put together from its fields and the runs between them.\<close>

fun interleave :: "string list \<Rightarrow> string list \<Rightarrow> string" where
  "interleave (f # fs) (w # ws) = f @ w @ interleave fs ws"
| "interleave (f # fs) [] = f"
| "interleave [] ws = []"


text \<open>
  Step 2: the header check passes when there is a first line and it begins with
  \<^verbatim>\<open>"USER "\<close>.
\<close>

definition header_ok :: "string \<Rightarrow> bool" where
  "header_ok stdout =
     (case lines_on_newline stdout of [] \<Rightarrow> False | line0 # rest \<Rightarrow> prefix ''USER '' line0)"

text \<open>
  Steps 3 to 5: the lines that remain when the header line (index 0) and the blank lines
  are skipped, each with its index in the output and split into its fields.
\<close>

definition rows_from :: "nat \<Rightarrow> string list \<Rightarrow> (nat \<times> string list) list" where
  "rows_from k lines =
     map (\<lambda>(i, line). (i, fields_on_whitespace line))
       (filter (\<lambda>(i, line). i \<noteq> 0 \<and> line \<noteq> []) (enumerate k lines))"

definition data_rows :: "string list \<Rightarrow> (nat \<times> string list) list" where
  "data_rows lines = rows_from 0 lines"

text \<open>
  Steps 5 and 6, all or nothing: the first row that has not nine fields fails the call
  with its index and the raw output; with no such row the result is field 1 of every
  row, in order.
\<close>

definition ps_spec :: "string \<Rightarrow> 'e error + string list" where
  "ps_spec stdout =
     (let rows = data_rows (lines_on_newline stdout) in
      case find (\<lambda>(i, cols). length cols \<noteq> 9) rows of
        Some (i, cols) \<Rightarrow> Inl (PsParseFailed i stdout)
      | None \<Rightarrow> Inr (map (\<lambda>(i, cols). cols ! 1) rows))"

text \<open>
  For the examples: a \<^verbatim>\<open>scheduleExec\<close> whose command resolves with a given stdout,
  and a device.
\<close>

definition resolves_with :: "string \<Rightarrow> (unit, unit, string error + string) scheduleExec" where
  "resolves_with out a c args opts t = Inr out"

definition device :: "unit Adb" where
  "device = \<lparr> app = (), adbCommand = ''adb'', serial = ''HT9CW'' \<rparr>"

text \<open>
  The invariant of the loop of \<^verbatim>\<open>dos2unix\<close> over the bytes \<open>src\<close> of the input, with
  \<open>rb\<close> the store of \<^verbatim>\<open>retBuf\<close>: the first \<open>retLen\<close> bytes written are the
  normalisation of the input up to \<open>aft\<close>, the input from \<open>aft\<close> up to \<open>origPos\<close> will be
  copied as it is, and \<open>aft\<close> is the start or right after a line feed.
\<close>

definition loop_inv :: "byte list \<Rightarrow> nat \<Rightarrow> nat \<Rightarrow> nat \<Rightarrow> byte list \<Rightarrow> bool" where
  "loop_inv src origPos aft retLen rb =
     (length rb = length src \<and> retLen \<le> aft \<and> aft \<le> origPos \<and> aft \<le> length src \<and>
      0 < origPos \<and>
      take retLen rb = normalize_spec (take aft src) \<and>
      normalize_spec (take origPos src) =
        normalize_spec (take aft src) @ drop aft (take origPos src) \<and>
      (aft = 0 \<or> src ! (aft - 1) = 10))"

section \<open>Replacing pairs in a list\<close>

lemma replace_crlf_append:
  "cr \<noteq> lf \<Longrightarrow> ys = [] \<or> hd ys \<noteq> lf \<Longrightarrow>
   replace_crlf cr lf (xs @ ys) = replace_crlf cr lf xs @ replace_crlf cr lf ys"
proof (induction cr lf xs rule: replace_crlf.induct)
  case (1 cr lf x y zs)
  then show ?case by auto
next
  case (2 cr lf x)
  then show ?case by (cases ys) auto
next
  case (3 cr lf)
  then show ?case by simp
qed

lemma replace_crlf_append_last:
  "cr \<noteq> lf \<Longrightarrow> xs = [] \<or> last xs \<noteq> cr \<Longrightarrow>
   replace_crlf cr lf (xs @ ys) = replace_crlf cr lf xs @ replace_crlf cr lf ys"
proof (induction cr lf xs rule: replace_crlf.induct)
  case (1 cr lf x y zs)
  then show ?case by (cases zs) auto
next
  case (2 cr lf x)
  then show ?case by (cases ys) auto
next
  case (3 cr lf)
  then show ?case by simp
qed

lemma replace_crlf_snoc:
  assumes "cr \<noteq> lf" and "\<not> (w = lf \<and> xs \<noteq> [] \<and> last xs = cr)"
  shows "replace_crlf cr lf (xs @ [w]) = replace_crlf cr lf xs @ [w]"
proof (cases "w = lf")
  case True
  with assms have "xs = [] \<or> last xs \<noteq> cr" by blast
  with assms(1) show ?thesis by (simp add: replace_crlf_append_last)
next
  case False
  with assms(1) show ?thesis by (simp add: replace_crlf_append)
qed

lemma replace_crlf_snoc_pair:
  "cr \<noteq> lf \<Longrightarrow> replace_crlf cr lf (xs @ [cr, lf]) = replace_crlf cr lf xs @ [lf]"
  using replace_crlf_append [of cr lf "[cr, lf]" xs] by simp

lemma length_replace_crlf: "length (replace_crlf cr lf xs) \<le> length xs"
  by (induction cr lf xs rule: replace_crlf.induct) auto

lemma replace_crlf_id: "\<not> has_crlf cr lf xs \<Longrightarrow> replace_crlf cr lf xs = xs"
  by (induction cr lf xs rule: replace_crlf.induct) auto

lemma replace_crlf_shorter:
  "has_crlf cr lf xs \<Longrightarrow> length (replace_crlf cr lf xs) < length xs"
proof (induction cr lf xs rule: replace_crlf.induct)
  case (1 cr lf x y zs)
  then show ?case using length_replace_crlf [of cr lf zs] by (auto simp: less_Suc_eq_le)
qed auto

text \<open>\<open>has_crlf\<close> by positions.\<close>

lemma has_crlf_nth:
  "has_crlf cr lf xs \<longleftrightarrow> (\<exists>i. Suc i < length xs \<and> xs ! i = cr \<and> xs ! Suc i = lf)"
proof (induction cr lf xs rule: has_crlf.induct)
  case (1 cr lf x y zs)
  show ?case
  proof
    assume "has_crlf cr lf (x # y # zs)"
    then consider "x = cr \<and> y = lf" | "has_crlf cr lf (y # zs)" by auto
    then show "\<exists>i. Suc i < length (x # y # zs) \<and> (x # y # zs) ! i = cr \<and> (x # y # zs) ! Suc i = lf"
    proof cases
      case 1
      then show ?thesis by (intro exI [of _ 0]) simp
    next
      case 2
      with "1.IH" obtain i where
        "Suc i < length (y # zs)" "(y # zs) ! i = cr" "(y # zs) ! Suc i = lf"
        by blast
      then show ?thesis by (intro exI [of _ "Suc i"]) simp
    qed
  next
    assume "\<exists>i. Suc i < length (x # y # zs) \<and> (x # y # zs) ! i = cr \<and> (x # y # zs) ! Suc i = lf"
    then obtain i where
      i: "Suc i < length (x # y # zs)" "(x # y # zs) ! i = cr" "(x # y # zs) ! Suc i = lf"
      by blast
    show "has_crlf cr lf (x # y # zs)"
    proof (cases i)
      case 0
      with i show ?thesis by simp
    next
      case (Suc j)
      with i have "Suc j < length (y # zs) \<and> (y # zs) ! j = cr \<and> (y # zs) ! Suc j = lf"
        by simp
      with "1.IH" show ?thesis by auto
    qed
  qed
qed auto

text \<open>\<open>has_crcrlf\<close> by positions.\<close>

lemma has_crcrlf_nth:
  "has_crcrlf cr lf xs \<longleftrightarrow>
     (\<exists>i. Suc (Suc i) < length xs \<and> xs ! i = cr \<and> xs ! Suc i = cr \<and> xs ! Suc (Suc i) = lf)"
proof (induction cr lf xs rule: has_crcrlf.induct)
  case (1 cr lf x y z zs)
  let ?xs = "x # y # z # zs"
  let ?P = "\<lambda>xs i. Suc (Suc i) < length xs \<and> xs ! i = cr \<and> xs ! Suc i = cr \<and> xs ! Suc (Suc i) = lf"
  show ?case
  proof
    assume "has_crcrlf cr lf ?xs"
    then consider "x = cr \<and> y = cr \<and> z = lf" | "has_crcrlf cr lf (y # z # zs)" by auto
    then show "\<exists>i. ?P ?xs i"
    proof cases
      case 1
      then show ?thesis by (intro exI [of _ 0]) simp
    next
      case 2
      with "1.IH" obtain i where "?P (y # z # zs) i" by blast
      then show ?thesis by (intro exI [of _ "Suc i"]) simp
    qed
  next
    assume "\<exists>i. ?P ?xs i"
    then obtain i where i: "?P ?xs i" by blast
    show "has_crcrlf cr lf ?xs"
    proof (cases i)
      case 0
      with i show ?thesis by simp
    next
      case (Suc j)
      with i have "?P (y # z # zs) j" by simp
      with "1.IH" show ?thesis by auto
    qed
  qed
qed auto

text \<open>A pair is left after one pass exactly where a \<open>cr\<close> stood before a pair.\<close>

lemma has_crlf_replace:
  "cr \<noteq> lf \<Longrightarrow> has_crlf cr lf (replace_crlf cr lf xs) = has_crcrlf cr lf xs"
proof (induction cr lf xs rule: has_crcrlf.induct)
  case (1 cr lf x y z zs)
  then show ?case by (cases zs) auto
qed auto

lemma replace_crlf_idem_iff:
  assumes "cr \<noteq> lf"
  shows "replace_crlf cr lf (replace_crlf cr lf xs) = replace_crlf cr lf xs
           \<longleftrightarrow> \<not> has_crcrlf cr lf xs"
proof (cases "has_crcrlf cr lf xs")
  case True
  with assms have "has_crlf cr lf (replace_crlf cr lf xs)" by (simp add: has_crlf_replace)
  from replace_crlf_shorter [OF this] True show ?thesis by auto
next
  case False
  with assms have "\<not> has_crlf cr lf (replace_crlf cr lf xs)" by (simp add: has_crlf_replace)
  from replace_crlf_id [OF this] False show ?thesis by simp
qed

lemma without_cr_before_lf_Cons:
  "without_cr_before_lf cr lf (x # xs) =
     (if x = cr \<and> xs \<noteq> [] \<and> hd xs = lf then [] else [x]) @ without_cr_before_lf cr lf xs"
proof -
  have upt: "[0..<length (x # xs)] = 0 # map Suc [0..<length xs]"
    by (simp add: upt_conv_Cons map_Suc_upt del: upt_Suc)
  have hd0: "xs \<noteq> [] \<Longrightarrow> xs ! 0 = hd xs" by (cases xs) auto
  show ?thesis
    unfolding without_cr_before_lf_def upt
    by (auto simp: filter_map comp_def hd0)
qed

lemma replace_crlf_positions:
  "cr \<noteq> lf \<Longrightarrow> replace_crlf cr lf xs = without_cr_before_lf cr lf xs"
proof (induction cr lf xs rule: replace_crlf.induct)
  case (1 cr lf x y zs)
  then show ?case by (auto simp: without_cr_before_lf_Cons)
next
  case (2 cr lf x)
  then show ?case by (simp add: without_cr_before_lf_def)
next
  case (3 cr lf)
  then show ?case by (simp add: without_cr_before_lf_def)
qed

section \<open>Strings\<close>

lemma indexOf_from_ge: "indexOf_from k s t = -1 \<or> k \<le> indexOf_from k s t"
proof (induction s arbitrary: k)
  case Nil
  then show ?case by simp
next
  case (Cons c cs)
  from Cons [of "k + 1"] show ?case by auto
qed

text \<open>\<^verbatim>\<open>s.indexOf(t) !== 0\<close> says that \<open>s\<close> does not begin with \<open>t\<close>.\<close>

lemma indexOf_0_iff: "indexOf s t = 0 \<longleftrightarrow> prefix t s"
proof (cases s)
  case Nil
  then show ?thesis by (simp add: indexOf_def)
next
  case (Cons c cs)
  have "indexOf_from 1 cs t \<noteq> 0" using indexOf_from_ge [of 1 cs t] by auto
  with Cons show ?thesis by (simp add: indexOf_def)
qed

lemma split_from_nonempty: "split_from m piece s \<noteq> []"
  by (induction m piece s rule: split_from.induct) (auto split: option.splits nat.splits)

text \<open>Neither separator matches the empty string, so \<^verbatim>\<open>split\<close> gives at least one piece.\<close>

lemma split_lines_nonempty: "split re_newline s \<noteq> []"
  by (simp add: split_def split_from_nonempty)

lemma split_spaces_nonempty: "split re_spaces s \<noteq> []"
  by (simp add: split_def split_from_nonempty re_spaces_def)

lemma header_first_field:
  assumes "prefix ''USER '' line"
  shows "split re_spaces line ! 0 = ''USER''"
proof -
  from assms obtain rest where "line = ''USER '' @ rest" by (auto simp: prefix_def)
  then show ?thesis
    by (simp add: split_def re_spaces_def is_space_def)
qed

section \<open>Lines and fields\<close>

text \<open>The white space of \<^verbatim>\<open>\s\<close> is the white space by code point.\<close>

lemma is_space_white_space: "is_space c = white_space c"
proof -
  have eq: "(c = d) = ((of_char c :: nat) = of_char d)" for d
    by simp
  have "is_space c \<longleftrightarrow>
      (of_char c :: nat) \<in> {9, 10, 11, 12, 13, 32, 160}"
    unfolding is_space_def by (simp add: eq)
  also have "\<dots> \<longleftrightarrow> white_space c"
    unfolding white_space_def Let_def by auto
  finally show ?thesis .
qed

lemma fields_on_whitespace_Nil: "fields_on_whitespace [] = [[]]"
  by (simp add: fields_on_whitespace.simps)

lemma fields_on_whitespace_space:
  "white_space c \<Longrightarrow>
   fields_on_whitespace (c # cs) = [] # fields_on_whitespace (dropWhile white_space cs)"
  by (subst fields_on_whitespace.simps) simp

lemma fields_on_whitespace_other:
  "\<not> white_space c \<Longrightarrow>
   fields_on_whitespace (c # cs) =
     (c # hd (fields_on_whitespace cs)) # tl (fields_on_whitespace cs)"
  by (subst fields_on_whitespace.simps, subst (2 3) fields_on_whitespace.simps)
    (simp add: Let_def)

lemma fields_on_whitespace_nonempty: "fields_on_whitespace s \<noteq> []"
  by (subst fields_on_whitespace.simps) (simp add: Let_def)

lemma fields_on_whitespace_last:
  fixes s :: string
  assumes "dropWhile (\<lambda>c. \<not> white_space c) s = []"
  shows "fields_on_whitespace s = [s]"
proof -
  from assms have "fields_on_whitespace s = [takeWhile (\<lambda>c. \<not> white_space c) s]"
    by (subst fields_on_whitespace.simps) (simp add: Let_def del: dropWhile_eq_Nil_conv)
  moreover from assms have "takeWhile (\<lambda>c. \<not> white_space c) s = s"
    by (metis append_Nil2 takeWhile_dropWhile_id)
  ultimately show ?thesis by (simp only:)
qed

lemma fields_on_whitespace_next:
  fixes s :: string
  assumes "dropWhile (\<lambda>c. \<not> white_space c) s \<noteq> []"
  shows "fields_on_whitespace s =
           takeWhile (\<lambda>c. \<not> white_space c) s #
           fields_on_whitespace (dropWhile white_space (dropWhile (\<lambda>c. \<not> white_space c) s))"
  using assms
  by (subst fields_on_whitespace.simps) (simp add: Let_def del: dropWhile_eq_Nil_conv)

lemma run_nonempty:
  fixes s :: string
  assumes "dropWhile (\<lambda>c. \<not> white_space c) s \<noteq> []"
  shows "takeWhile white_space (dropWhile (\<lambda>c. \<not> white_space c) s) \<noteq> []"
proof -
  from assms have "\<not> \<not> white_space (hd (dropWhile (\<lambda>c. \<not> white_space c) s))"
    by (rule hd_dropWhile)
  with assms show ?thesis by (simp only: takeWhile_eq_Nil_iff not_not simp_thms)
qed

text \<open>No field holds white space.\<close>

lemma fields_no_whitespace:
  "f \<in> set (fields_on_whitespace s) \<Longrightarrow> c \<in> set f \<Longrightarrow> \<not> white_space c"
proof (induction s arbitrary: f rule: fields_on_whitespace.induct)
  case (1 s)
  let ?field = "takeWhile (\<lambda>c. \<not> white_space c) s"
  let ?rest = "dropWhile (\<lambda>c. \<not> white_space c) s"
  from "1.prems"(1) have "f = ?field \<or>
      (?rest \<noteq> [] \<and> f \<in> set (fields_on_whitespace (dropWhile white_space ?rest)))"
    by (subst (asm) fields_on_whitespace.simps) (auto simp: Let_def split: if_splits)
  then show ?case
  proof
    assume "f = ?field"
    with "1.prems"(2) show ?thesis by (auto dest: set_takeWhileD)
  next
    assume "?rest \<noteq> [] \<and> f \<in> set (fields_on_whitespace (dropWhile white_space ?rest))"
    with "1.IH" [OF refl refl] "1.prems"(2) show ?thesis by blast
  qed
qed

text \<open>
  The line is its fields with a run of white space, not empty, between each two: so the
  fields are what is left of the line when the runs of white space are cut out.
\<close>

lemma fields_on_whitespace_runs:
  "\<exists>runs. length (fields_on_whitespace s) = Suc (length runs) \<and>
      (\<forall>w \<in> set runs. w \<noteq> [] \<and> (\<forall>c \<in> set w. white_space c)) \<and>
      s = interleave (fields_on_whitespace s) runs"
proof (induction s rule: fields_on_whitespace.induct)
  case (1 s)
  let ?field = "takeWhile (\<lambda>c. \<not> white_space c) s"
  let ?rest = "dropWhile (\<lambda>c. \<not> white_space c) s"
  show ?case
  proof (cases "?rest = []")
    case True
    then have "fields_on_whitespace s = [s]" by (rule fields_on_whitespace_last)
    then show ?thesis by (intro exI [of _ "[]"]) simp
  next
    case False
    let ?run = "takeWhile white_space ?rest"
    let ?s' = "dropWhile white_space ?rest"
    from False have F: "fields_on_whitespace s = ?field # fields_on_whitespace ?s'"
      by (rule fields_on_whitespace_next)
    from "1.IH" [OF refl refl False] obtain runs where
      runs: "length (fields_on_whitespace ?s') = Suc (length runs)"
        "\<forall>w \<in> set runs. w \<noteq> [] \<and> (\<forall>c \<in> set w. white_space c)"
        "?s' = interleave (fields_on_whitespace ?s') runs"
      by blast
    from False have run: "?run \<noteq> []" by (rule run_nonempty)
    have ws: "\<forall>c \<in> set ?run. white_space c" by (auto dest: set_takeWhileD)
    have "s = ?field @ ?run @ ?s'" by simp
    also have "\<dots> = ?field @ ?run @ interleave (fields_on_whitespace ?s') runs"
      using runs(3) by (rule arg_cong [where f = "\<lambda>t. ?field @ ?run @ t"])
    also have "\<dots> = interleave (?field # fields_on_whitespace ?s') (?run # runs)"
      by (simp only: interleave.simps)
    finally have s: "s = interleave (fields_on_whitespace s) (?run # runs)"
      by (simp only: F)
    have "length (fields_on_whitespace s) = Suc (length (?run # runs))"
      using runs(1) by (simp only: F list.size length_Cons)
    moreover have "\<forall>w \<in> set (?run # runs). w \<noteq> [] \<and> (\<forall>c \<in> set w. white_space c)"
      using runs(2) run ws by (simp only: set_simps ball_simps simp_thms)
    ultimately show ?thesis using s by (intro exI [of _ "?run # runs"] conjI)
  qed
qed

text \<open>\<^verbatim>\<open>line.split(/\s+/)\<close> gives the fields of the line.\<close>

lemma split_from_spaces:
  "split_from re_spaces piece s =
     (piece @ hd (fields_on_whitespace s)) # tl (fields_on_whitespace s)"
proof (induction re_spaces piece s rule: split_from.induct)
  case (1 piece)
  then show ?case by (simp add: fields_on_whitespace_Nil)
next
  case (2 piece c cs)
  show ?case
  proof (cases "white_space c")
    case True
    then have sp: "is_space c" by (simp add: is_space_white_space)
    define n where "n = length (takeWhile is_space cs)"
    have m: "re_spaces (c # cs) = Some (Suc n)"
      using sp by (simp add: re_spaces_def n_def)
    have "is_space = white_space" by (rule ext) (rule is_space_white_space)
    then have d: "drop n cs = dropWhile white_space cs"
      unfolding n_def by (simp add: dropWhile_eq_drop)
    from "2.hyps"(4) [OF m refl] have
      "split_from re_spaces [] (drop n cs) = fields_on_whitespace (drop n cs)"
      using fields_on_whitespace_nonempty [of "drop n cs"] by simp
    with m d True show ?thesis by (simp add: fields_on_whitespace_space)
  next
    case False
    then have sp: "\<not> is_space c" by (simp add: is_space_white_space)
    then have m: "re_spaces (c # cs) = None" by (simp add: re_spaces_def)
    from "2.hyps"(1) [OF m] m False show ?thesis
      by (simp add: fields_on_whitespace_other)
  qed
qed

lemma split_spaces_fields: "split re_spaces s = fields_on_whitespace s"
proof (cases s)
  case Nil
  then show ?thesis by (simp add: split_def re_spaces_def fields_on_whitespace_Nil)
next
  case (Cons c cs)
  then show ?thesis
    using split_from_spaces [of "[]" s] fields_on_whitespace_nonempty [of s]
    by (simp add: split_def)
qed

lemma lines_on_newline_Nil: "lines_on_newline [] = [[]]"
  by (simp add: lines_on_newline.simps)

text \<open>
  The pieces of \<open>split_from\<close> in terms of the lines: the piece at hand goes in front of
  the first line, which loses the carriage return of its line end.
\<close>

lemma lines_on_newline_piece:
  "lines_on_newline s =
     (if dropWhile (\<lambda>c. c \<noteq> LF) s = [] then [[] @ s]
      else chop_cr ([] @ takeWhile (\<lambda>c. c \<noteq> LF) s) #
           lines_on_newline (tl (dropWhile (\<lambda>c. c \<noteq> LF) s)))"
proof (cases "dropWhile (\<lambda>c. c \<noteq> LF) s = []")
  case True
  then have tk: "takeWhile (\<lambda>c. c \<noteq> LF) s = s"
    by (metis append_Nil2 takeWhile_dropWhile_id)
  show ?thesis
    by (subst lines_on_newline.simps)
      (simp only: Let_def True tk if_True append_Nil)
next
  case False
  then show ?thesis
    by (subst lines_on_newline.simps) (simp add: del: dropWhile_eq_Nil_conv)
qed

lemma split_from_newline:
  "\<not> (piece \<noteq> [] \<and> last piece = CR \<and> s \<noteq> [] \<and> hd s = LF) \<Longrightarrow>
   split_from re_newline piece s =
     (if dropWhile (\<lambda>c. c \<noteq> LF) s = [] then [piece @ s]
      else chop_cr (piece @ takeWhile (\<lambda>c. c \<noteq> LF) s) #
           lines_on_newline (tl (dropWhile (\<lambda>c. c \<noteq> LF) s)))"
proof (induction re_newline piece s rule: split_from.induct)
  case (1 piece)
  then show ?case by simp
next
  case (2 piece c cs)
  have ne: "CR \<noteq> LF" by (simp add: CR_def LF_def)
  have pre: "\<not> (([] :: string) \<noteq> [] \<and> last [] = CR \<and> t \<noteq> [] \<and> hd t = LF)" for t
    by simp
  have rec: "split_from re_newline [] (drop n cs) = lines_on_newline (drop n cs)"
    if "re_newline (c # cs) = Some (Suc n)" for n
    by (rule trans [OF "2.hyps"(4) [OF that refl pre] lines_on_newline_piece [symmetric]])
  consider (crlf) cs' where "c = CR" "cs = LF # cs'"
    | (lf) "c = LF"
    | (other) "c \<noteq> LF" "\<not> (c = CR \<and> cs \<noteq> [] \<and> hd cs = LF)"
    by (cases cs) auto
  then show ?case
  proof cases
    case crlf
    then have m: "re_newline (c # cs) = Some (Suc (Suc 0))" by simp
    from rec [OF m] crlf have "split_from re_newline [] cs' = lines_on_newline cs'"
      by simp
    then show ?thesis using m crlf ne by (simp add: chop_cr_def)
  next
    case lf
    then have m: "re_newline (c # cs) = Some (Suc 0)" using ne by (cases cs) auto
    from rec [OF m] have "split_from re_newline [] cs = lines_on_newline cs"
      by simp
    then show ?thesis using m lf "2.prems" by (auto simp: chop_cr_def)
  next
    case other
    then have m: "re_newline (c # cs) = None" by (cases cs) auto
    have "\<not> (piece @ [c] \<noteq> [] \<and> last (piece @ [c]) = CR \<and> cs \<noteq> [] \<and> hd cs = LF)"
      using other by simp
    from "2.hyps"(1) [OF m this] show ?thesis
      using m other(1) by (simp del: dropWhile_eq_Nil_conv)
  qed
qed

text \<open>\<^verbatim>\<open>stdout.split(/\r?\n/)\<close> gives the lines of the output.\<close>

lemma split_newline_lines: "split re_newline s = lines_on_newline s"
proof (cases s)
  case Nil
  then show ?thesis by (simp add: split_def lines_on_newline_Nil)
next
  case (Cons c cs)
  have "split_from re_newline [] s =
     (if dropWhile (\<lambda>c. c \<noteq> LF) s = [] then [[] @ s]
      else chop_cr ([] @ takeWhile (\<lambda>c. c \<noteq> LF) s) #
           lines_on_newline (tl (dropWhile (\<lambda>c. c \<noteq> LF) s)))"
    by (rule split_from_newline) simp
  then have "split_from re_newline [] s = lines_on_newline s"
    by (simp only: lines_on_newline_piece [symmetric])
  with Cons show ?thesis by (simp add: split_def)
qed

section \<open>The parser of the process listing\<close>

text \<open>
  The \<^verbatim>\<open>forEach\<close> past the header line: it stops at the first row that has not nine
  fields and otherwise appends field 1 of each row.
\<close>

lemma forEach_ps_line:
  "0 < k \<Longrightarrow>
   forEach (ps_line stdout) lines k pids =
     (case find (\<lambda>(i, cols). length cols \<noteq> 9) (rows_from k lines) of
        Some (i, cols) \<Rightarrow> Inl (PsParseFailed i stdout)
      | None \<Rightarrow> Inr (pids @ map (\<lambda>(i, cols). cols ! 1) (rows_from k lines)))"
proof (induction lines arbitrary: k pids)
  case Nil
  then show ?case by (simp add: rows_from_def)
next
  case (Cons line lines)
  have rows: "rows_from k (line # lines) =
      (if line = [] then [] else [(k, fields_on_whitespace line)]) @ rows_from (Suc k) lines"
    using Cons.prems by (simp add: rows_from_def)
  show ?case
  proof (cases "line = []")
    case True
    then have "ps_line stdout line k pids = (Inr pids :: 'a error + string list)"
      by (simp add: ps_line_def split_spaces_fields)
    moreover have "rows_from k (line # lines) = rows_from (Suc k) lines"
      unfolding rows using True by simp
    ultimately show ?thesis using Cons.IH [of "Suc k" pids] by (simp cong: option.case_cong)
  next
    case False
    then have rows': "rows_from k (line # lines) = (k, fields_on_whitespace line) # rows_from (Suc k) lines"
      by (simp add: rows)
    show ?thesis
    proof (cases "length (fields_on_whitespace line) = 9")
      case True
      then have "ps_line stdout line k pids =
          (Inr (pids @ [fields_on_whitespace line ! 1]) :: 'a error + string list)"
        using False Cons.prems by (simp add: ps_line_def split_spaces_fields)
      then show ?thesis
        using True Cons.IH [of "Suc k" "pids @ [fields_on_whitespace line ! 1]"]
        by (simp add: rows' split: option.splits)
    next
      case ne9: False
      then have "ps_line stdout line k pids = (Inl (PsParseFailed k stdout) :: 'a error + string list)"
        using False Cons.prems by (simp add: ps_line_def split_spaces_fields)
      then show ?thesis using ne9 by (simp add: rows')
    qed
  qed
qed

lemma parse_ps_refines_spec:
  assumes "header_ok stdout"
  shows "parse_ps stdout = ps_spec stdout"
proof -
  from assms obtain line0 rest where
    lines: "lines_on_newline stdout = line0 # rest" and hdr: "prefix ''USER '' line0"
    by (auto simp: header_ok_def split: list.splits)
  from hdr have ne: "line0 \<noteq> []" by auto
  have first: "ps_line stdout line0 0 [] = (Inr [] :: 'a error + string list)"
    using ne header_first_field [OF hdr] split_spaces_nonempty [of line0]
    by (simp add: ps_line_def)
  have "data_rows (line0 # rest) = rows_from (Suc 0) rest"
    by (simp add: data_rows_def rows_from_def)
  moreover have "forEach (ps_line stdout) rest (Suc 0) [] =
      (case find (\<lambda>(i, cols). length cols \<noteq> 9) (rows_from (Suc 0) rest) of
         Some (i, cols) \<Rightarrow> Inl (PsParseFailed i stdout)
       | None \<Rightarrow> (Inr (map (\<lambda>(i, cols). cols ! 1) (rows_from (Suc 0) rest)) :: 'a error + string list))"
    by (simp add: forEach_ps_line cong: option.case_cong)
  ultimately show ?thesis
    using hdr first
    by (simp add: parse_ps_def ps_spec_def split_newline_lines lines indexOf_0_iff Let_def)
qed

section \<open>The Buffer case of \<^verbatim>\<open>dos2unix\<close>\<close>

text \<open>
  The heap during the loop is the heap of the call with the store \<open>rb\<close> of
  \<^verbatim>\<open>retBuf\<close> at its end: reads of the input do not see \<open>rb\<close>, writes change only it.
\<close>

lemma length_bytes_of: "valid_buffer h b \<Longrightarrow> length (bytes_of h b) = blength b"
  by (auto simp: valid_buffer_def bytes_of_def)

lemma buf_get_frame:
  assumes "valid_buffer h0 b" and "i < blength b"
  shows "buf_get (h0 @ [rb]) b i = Some (bytes_of h0 b ! i)"
  using assms by (simp add: buf_get_def valid_buffer_def bytes_of_def nth_append)

lemma buf_get_frame_out:
  "\<not> i < blength b \<Longrightarrow> buf_get h b i = None"
  by (simp add: buf_get_def)

lemma bytes_of_frame:
  assumes "valid_buffer h0 b"
  shows "bytes_of (h0 @ [rb]) b = bytes_of h0 b"
  using assms by (simp add: valid_buffer_def bytes_of_def nth_append)

lemma buf_set_fresh:
  assumes "i < n"
  shows "buf_set (h0 @ [rb]) \<lparr> store = length h0, offset = 0, blength = n \<rparr> i v = h0 @ [rb[i := v]]"
  using assms by (simp add: buf_set_def)

lemma buf_copy_fresh:
  assumes "valid_buffer h0 b" and "s < e" and "e \<le> blength b" and "t + (e - s) \<le> n"
  shows "buf_copy (h0 @ [rb]) b \<lparr> store = length h0, offset = 0, blength = n \<rparr> t s e =
           Inr (h0 @ [take t rb @ take (e - s) (drop s (bytes_of h0 b)) @ drop (t + (e - s)) rb])"
  using assms by (auto simp: buf_copy_def bytes_of_frame min_def Let_def)

lemma loop_inv_init:
  "length rb = length src \<Longrightarrow> loop_inv src 1 0 0 rb"
  by (cases src) (simp_all add: loop_inv_def normalize_spec_def)

lemma loop_inv_skip:
  assumes inv: "loop_inv src p aft r rb" and p: "p < length src"
    and no: "\<not> (src ! p = 10 \<and> src ! (p - 1) = 13)"
  shows "loop_inv src (Suc p) aft r rb"
proof -
  from inv have aft: "aft \<le> p" and pos: "0 < p"
    and eq: "normalize_spec (take p src) = normalize_spec (take aft src) @ drop aft (take p src)"
    by (simp_all add: loop_inv_def)
  have tk: "take (Suc p) src = take p src @ [src ! p]"
    using p by (simp add: take_Suc_conv_app_nth)
  have lst: "take p src \<noteq> [] \<and> last (take p src) = src ! (p - 1)"
    using p pos by (cases p) (auto simp: take_Suc_conv_app_nth)
  have "normalize_spec (take (Suc p) src) = normalize_spec (take p src) @ [src ! p]"
    unfolding tk normalize_spec_def using no lst by (intro replace_crlf_snoc) auto
  also have "\<dots> = normalize_spec (take aft src) @ drop aft (take (Suc p) src)"
    using eq aft p by (simp add: tk)
  finally show ?thesis using inv by (simp add: loop_inv_def)
qed

lemma loop_inv_match:
  assumes inv: "loop_inv src p aft r rb" and p: "p < length src"
    and m: "src ! p = 10" "src ! (p - 1) = 13"
  defines "c \<equiv> p - aft - 1"
  shows "aft < p"
    and "loop_inv src (Suc p) (Suc p) (r + c + 1)
           ((take r rb @ take c (drop aft src) @ drop (r + c) rb)[r + c := 10])"
proof -
  from inv have aft: "aft \<le> p" and pos: "0 < p" and r: "r \<le> aft" and len: "length rb = length src"
    and out: "take r rb = normalize_spec (take aft src)"
    and eq: "normalize_spec (take p src) = normalize_spec (take aft src) @ drop aft (take p src)"
    and br: "aft = 0 \<or> src ! (aft - 1) = 10"
    by (simp_all add: loop_inv_def)
  show lt: "aft < p"
  proof (rule ccontr)
    assume "\<not> aft < p"
    with aft have "aft = p" by simp
    with br pos m show False by simp
  qed
  define q where "q = p - 1"
  have q: "p = Suc q" "aft \<le> q" "q < length src" "c = q - aft"
    using lt p by (simp_all add: q_def c_def)
  have tq: "take p src = take q src @ [13]"
    using q m by (simp add: take_Suc_conv_app_nth)
  have tp: "take (Suc p) src = take q src @ [13, 10]"
    using q m p by (simp add: take_Suc_conv_app_nth)
  have "normalize_spec (take q src) @ [13] = normalize_spec (take p src)"
    unfolding tq normalize_spec_def by (rule replace_crlf_snoc [symmetric]) auto
  also have "\<dots> = (normalize_spec (take aft src) @ drop aft (take q src)) @ [13]"
    using eq [unfolded tq] q(2,3) by (simp add: tq)
  finally have eq': "normalize_spec (take q src) = normalize_spec (take aft src) @ drop aft (take q src)"
    by simp
  have seg: "drop aft (take q src) = take c (drop aft src)"
    using q by (simp add: drop_take)
  have lc: "length (take c (drop aft src)) = c"
    using q by simp
  have rc: "r + c < length rb"
    using q r len by simp
  let ?rb = "(take r rb @ take c (drop aft src) @ drop (r + c) rb)[r + c := 10]"
  have "take (r + c + 1) ?rb = take r rb @ take c (drop aft src) @ [10]"
  proof -
    have "?rb = take r rb @ take c (drop aft src) @ (drop (r + c) rb)[0 := 10]"
      using rc lc by (simp add: list_update_append)
    moreover have "drop (r + c) rb \<noteq> []" using rc by simp
    then obtain y ys where "drop (r + c) rb = y # ys" by (cases "drop (r + c) rb") auto
    ultimately show ?thesis using rc lc by simp
  qed
  also have "\<dots> = normalize_spec (take q src) @ [10]"
    using out eq' seg by simp
  also have "\<dots> = normalize_spec (take (Suc p) src)"
    unfolding tp normalize_spec_def by (rule replace_crlf_snoc_pair [symmetric]) simp
  finally have out': "take (r + c + 1) ?rb = normalize_spec (take (Suc p) src)" .
  have "length ?rb = r + c + (length rb - (r + c))"
    using rc q by simp
  with rc len have len': "length ?rb = length src" by simp
  have le: "r + c + 1 \<le> Suc p" using q r by simp
  have "drop (Suc p) (take (Suc p) src) = []" by simp
  with len' le out' p m show "loop_inv src (Suc p) (Suc p) (r + c + 1) ?rb"
    unfolding loop_inv_def by simp
qed

text \<open>
  The loop returns, no copy fails, the stores of the heap of the call are as they were,
  and the invariant holds at the end.
\<close>

lemma dos2unix_loop_correct:
  assumes v: "valid_buffer h0 b"
  shows "loop_inv (bytes_of h0 b) p aft r rb \<Longrightarrow>
         \<exists>p' aft' r' rb'.
           dos2unix_loop b \<lparr> store = length h0, offset = 0, blength = blength b \<rparr>
             (blength b) p aft r (h0 @ [rb]) = Inr (aft', r', h0 @ [rb']) \<and>
           loop_inv (bytes_of h0 b) p' aft' r' rb' \<and> blength b \<le> p'"
proof (induction "blength b - p" arbitrary: p aft r rb rule: less_induct)
  case less
  let ?src = "bytes_of h0 b"
  let ?ret = "\<lparr> store = length h0, offset = 0, blength = blength b \<rparr>"
  have n: "length ?src = blength b" using v by (rule length_bytes_of)
  from less.prems have pos: "0 < p" and aft: "aft \<le> p" and r: "r \<le> aft"
    by (simp_all add: loop_inv_def)
  show ?case
  proof (cases "p < blength b")
    case False
    then have "dos2unix_loop b ?ret (blength b) p aft r (h0 @ [rb]) = Inr (aft, r, h0 @ [rb])"
      by (subst dos2unix_loop.simps) simp
    with less.prems False show ?thesis by auto
  next
    case True
    then have g1: "buf_get (h0 @ [rb]) b p = Some (?src ! p)"
      and g2: "buf_get (h0 @ [rb]) b (p - 1) = Some (?src ! (p - 1))"
      using v by (simp_all add: buf_get_frame)
    show ?thesis
    proof (cases "?src ! p = 10 \<and> ?src ! (p - 1) = 13")
      case False
      then have step: "dos2unix_loop b ?ret (blength b) p aft r (h0 @ [rb]) =
          dos2unix_loop b ?ret (blength b) (p + 1) aft r (h0 @ [rb])"
        using True g1 g2 by (subst dos2unix_loop.simps) auto
      have "loop_inv ?src (Suc p) aft r rb"
        using less.prems True False n by (intro loop_inv_skip) simp_all
      moreover have "blength b - Suc p < blength b - p" using True by simp
      ultimately show ?thesis using less.hyps [of "Suc p" aft r rb] step by simp
    next
      case m: True
      define c where "c = p - aft - 1"
      let ?rb = "(take r rb @ take c (drop aft ?src) @ drop (r + c) rb)[r + c := 10]"
      have lt: "aft < p" and inv': "loop_inv ?src (Suc p) (Suc p) (r + c + 1) ?rb"
        using loop_inv_match [OF less.prems] True m n by (simp_all add: c_def)
      have rc: "r + c < blength b" using lt r True by (simp add: c_def)
      have lrb: "length rb = blength b" using less.prems n by (simp add: loop_inv_def)
      have heap: "(if 0 < c
             then (case buf_copy (h0 @ [rb]) b ?ret r aft (p - 1) of
                     Inl e \<Rightarrow> Inl e | Inr h1 \<Rightarrow> Inr (r + c, h1))
             else Inr (r, h0 @ [rb])) =
            Inr (r + c, h0 @ [take r rb @ take c (drop aft ?src) @ drop (r + c) rb])"
      proof (cases "0 < c")
        case False
        then show ?thesis by simp
      next
        case c: True
        have "buf_copy (h0 @ [rb]) b ?ret r aft (p - 1) =
            Inr (h0 @ [take r rb @ take (p - 1 - aft) (drop aft ?src) @ drop (r + (p - 1 - aft)) rb])"
          using v c True rc by (intro buf_copy_fresh) (simp_all add: c_def)
        moreover have "p - 1 - aft = c" by (simp add: c_def)
        ultimately have "buf_copy (h0 @ [rb]) b ?ret r aft (p - 1) =
            Inr (h0 @ [take r rb @ take c (drop aft ?src) @ drop (r + c) rb])"
          by (simp only:)
        then show ?thesis using c by (simp only: if_True sum.case)
      qed
      have set: "buf_set (h0 @ [take r rb @ take c (drop aft ?src) @ drop (r + c) rb]) ?ret (r + c) 10 =
          h0 @ [?rb]"
        using rc by (simp add: buf_set_fresh)
      have step: "dos2unix_loop b ?ret (blength b) p aft r (h0 @ [rb]) =
          dos2unix_loop b ?ret (blength b) (p + 1) (p + 1) (r + c + 1) (h0 @ [?rb])"
        apply (subst dos2unix_loop.simps)
        apply (simp only: True m g1 g2 if_True simp_thms Let_def)
        apply (fold c_def)
        apply (simp only: heap sum.case prod.case set)
        done
      have "blength b - Suc p < blength b - p" using True by simp
      then show ?thesis using less.hyps [of "Suc p" "Suc p" "r + c + 1" ?rb] inv' step by simp
    qed
  qed
qed

text \<open>
  The whole Buffer case: the call returns a view from offset 0 on a new store, and the
  view shows the normalisation of the input.
\<close>

lemma dos2unix_Buffer_correct:
  assumes v: "valid_buffer h b"
  shows "\<exists>rb r. dos2unix_Buffer junk h b = Inr (r, h @ [rb]) \<and>
           length rb = blength b \<and> store r = length h \<and> offset r = 0 \<and>
           blength r \<le> blength b \<and>
           bytes_of (h @ [rb]) r = normalize_spec (bytes_of h b)"
proof -
  let ?src = "bytes_of h b"
  let ?n = "blength b"
  let ?ret = "\<lparr> store = length h, offset = 0, blength = ?n \<rparr>"
  let ?rb0 = "map junk [0..<?n]"
  have n: "length ?src = ?n" using v by (rule length_bytes_of)
  have "loop_inv ?src 1 0 0 ?rb0" using n by (intro loop_inv_init) simp
  from dos2unix_loop_correct [OF v this]
  obtain p aft r rb where
    loop: "dos2unix_loop b ?ret ?n 1 0 0 (h @ [?rb0]) = Inr (aft, r, h @ [rb])"
    and inv: "loop_inv ?src p aft r rb" and p: "?n \<le> p"
    by blast
  from inv p n have lrb: "length rb = ?n" and r: "r \<le> aft" and aft: "aft \<le> ?n"
    and out: "take r rb = normalize_spec (take aft ?src)"
    and eq: "normalize_spec ?src = normalize_spec (take aft ?src) @ drop aft ?src"
    by (simp_all add: loop_inv_def)
  define t where "t = ?n - aft"
  define rb' where "rb' = take r rb @ drop aft ?src @ drop (r + t) rb"
  have tail: "(if 0 < t
         then (case buf_copy (h @ [rb]) b ?ret r aft ?n of
                 Inl e \<Rightarrow> Inl e | Inr h2 \<Rightarrow> Inr (r + t, h2))
         else Inr (r, h @ [rb])) = Inr (r + t, h @ [rb'])"
  proof (cases "0 < t")
    case False
    then have "drop aft ?src = []" using n by (simp add: t_def)
    with False show ?thesis by (simp add: rb'_def)
  next
    case True
    have "buf_copy (h @ [rb]) b ?ret r aft ?n =
        Inr (h @ [take r rb @ take (?n - aft) (drop aft ?src) @ drop (r + (?n - aft)) rb])"
      using v True r aft by (intro buf_copy_fresh) (simp_all add: t_def)
    moreover have "take (?n - aft) (drop aft ?src) = drop aft ?src" using n by simp
    ultimately have "buf_copy (h @ [rb]) b ?ret r aft ?n = Inr (h @ [rb'])"
      by (simp only: rb'_def t_def)
    with True show ?thesis by (simp only: if_True sum.case)
  qed
  have lrb': "length rb' = ?n"
    using lrb r aft n by (simp add: rb'_def t_def)
  have rt: "r + t \<le> ?n" using r aft by (simp add: t_def)
  have "take (r + t) rb' = take r rb @ drop aft ?src"
    using lrb r aft n by (simp add: rb'_def t_def)
  with out eq have res: "take (r + t) rb' = normalize_spec ?src" by simp
  have unfolded: "dos2unix_Buffer junk h b =
      (if r + t < ?n
       then (case buf_slice ?ret 0 (r + t) of Inl e \<Rightarrow> Inl e | Inr x \<Rightarrow> Inr (x, h @ [rb']))
       else Inr (?ret, h @ [rb']))"
    unfolding dos2unix_Buffer_def new_Buffer_def Let_def prod.case loop sum.case
    apply (fold t_def)
    apply (simp only: tail sum.case prod.case buffer.simps)
    done
  show ?thesis
  proof (cases "r + t < ?n")
    case True
    then have "dos2unix_Buffer junk h b =
        Inr (\<lparr> store = length h, offset = 0, blength = r + t \<rparr>, h @ [rb'])"
      by (simp add: unfolded buf_slice_def)
    then show ?thesis using lrb' rt res by (auto simp: bytes_of_def)
  next
    case False
    with rt have "r + t = ?n" by simp
    moreover from False have "dos2unix_Buffer junk h b = Inr (?ret, h @ [rb'])"
      by (simp add: unfolded)
    ultimately show ?thesis using lrb' res by (auto simp: bytes_of_def)
  qed
qed

section \<open>\<^verbatim>\<open>dos2unix\<close> as a whole\<close>

text \<open>Rules that evaluate the Buffer case on a given heap.\<close>

lemmas buffer_eval = dos2unix_def dos2unix_Buffer_def new_Buffer_def buf_get_def buf_set_def
  buf_copy_def buf_slice_def bytes_of_def dos2unix_loop.simps Let_def valid_buffer_def upt_rec

text \<open>
  On a Buffer that lies within its store, \<^verbatim>\<open>dos2unix\<close> returns: a Buffer on the one
  store it adds to the heap, showing the normalisation of the input.
\<close>

lemma dos2unix_Buf:
  assumes "valid_buffer h b"
  shows "\<exists>rb r. dos2unix junk h (Buf b) = Inr (Buf r, h @ [rb]) \<and>
           length rb = blength b \<and> store r = length h \<and> offset r = 0 \<and>
           blength r \<le> blength b \<and> valid_buffer (h @ [rb]) r \<and>
           bytes_of (h @ [rb]) r = normalize_spec (bytes_of h b)"
proof -
  from dos2unix_Buffer_correct [OF assms, of junk] obtain rb r where
    r: "dos2unix_Buffer junk h b = Inr (r, h @ [rb])" "length rb = blength b"
      "store r = length h" "offset r = 0" "blength r \<le> blength b"
      "bytes_of (h @ [rb]) r = normalize_spec (bytes_of h b)"
    by blast
  then have "valid_buffer (h @ [rb]) r" by (simp add: valid_buffer_def)
  moreover from r(1) have "dos2unix junk h (Buf b) = Inr (Buf r, h @ [rb])"
    by (simp add: dos2unix_def)
  ultimately show ?thesis using r by blast
qed

text \<open>On a string the result is the string with the pairs replaced, also on the empty one.\<close>

lemma dos2unix_Str: "dos2unix junk h (Str s) = Inr (Str (replace_crlf CR LF s), h)"
  by (cases s) (simp_all add: dos2unix_def)

section \<open>The claims\<close>

subsection \<open>Normalisation\<close>

text \<open>
  C1. For every byte sequence \<open>b\<close>, given as a Buffer on any heap, \<^verbatim>\<open>dos2unix\<close>
  returns a Buffer whose bytes are those of \<open>b\<close> with every pair \<open>0x0D 0x0A\<close> replaced
  by a single \<open>0x0A\<close>: in terms of positions, the bytes of \<open>b\<close> in their order without
  each \<open>0x0D\<close> that is immediately followed by \<open>0x0A\<close>. Every other byte is kept,
  also a \<open>0x0D\<close> that no \<open>0x0A\<close> follows. The witness is the input \<open>[0x41, 0x0D, 0x42]\<close>
  of the claim, which comes back unchanged.
\<close>

theorem dos2unix_Buffer_replaces_crlf:
  assumes "valid_buffer h b"
  shows "\<exists>r h'. dos2unix junk h (Buf b) = Inr (Buf r, h') \<and>
           bytes_of h' r = normalize_spec (bytes_of h b) \<and>
           bytes_of h' r = without_cr_before_lf 0x0D 0x0A (bytes_of h b)"
proof -
  from dos2unix_Buf [OF assms, of junk] obtain rb r where
    "dos2unix junk h (Buf b) = Inr (Buf r, h @ [rb])"
    "bytes_of (h @ [rb]) r = normalize_spec (bytes_of h b)"
    by blast
  moreover have "normalize_spec (bytes_of h b) = without_cr_before_lf 0x0D 0x0A (bytes_of h b)"
    unfolding normalize_spec_def by (rule replace_crlf_positions) simp
  ultimately show ?thesis by auto
qed

theorem dos2unix_Buffer_replaces_crlf_witness:
  "valid_buffer [[0x41, 0x0D, 0x42]] \<lparr> store = 0, offset = 0, blength = 3 \<rparr> \<and>
   (\<exists>r h'. dos2unix (\<lambda>i. 0xAA) [[0x41, 0x0D, 0x42]]
              (Buf \<lparr> store = 0, offset = 0, blength = 3 \<rparr>) = Inr (Buf r, h') \<and>
            bytes_of h' r = [0x41, 0x0D, 0x42])"
proof -
  have v: "valid_buffer [[0x41, 0x0D, 0x42]] \<lparr> store = 0, offset = 0, blength = 3 \<rparr>"
    by (simp add: valid_buffer_def)
  have "normalize_spec (bytes_of [[0x41, 0x0D, 0x42]] \<lparr> store = 0, offset = 0, blength = 3 \<rparr>)
      = [0x41, 0x0D, 0x42]"
    by (simp add: normalize_spec_def bytes_of_def)
  with dos2unix_Buffer_replaces_crlf [OF v, of "\<lambda>i. 0xAA"] v show ?thesis by auto
qed

text \<open>
  C2. The claim that \<^verbatim>\<open>dos2unix\<close> is idempotent fails on the input \<open>CR CR LF\<close>: the
  first pass returns \<open>CR LF\<close> and the second \<open>LF\<close>, for a string and for a Buffer.
\<close>

theorem dos2unix_twice_counterexample:
  "dos2unix zeros [] (Str [CR, CR, LF]) = Inr (Str [CR, LF], []) \<and>
   dos2unix zeros [] (Str [CR, LF]) = Inr (Str [LF], []) \<and>
   [CR, LF] \<noteq> [LF] \<and>
   dos2unix zeros [[13, 13, 10]] (Buf \<lparr> store = 0, offset = 0, blength = 3 \<rparr>) =
     Inr (Buf \<lparr> store = 1, offset = 0, blength = 2 \<rparr>, [[13, 13, 10], [13, 10, 0]]) \<and>
   bytes_of [[13, 13, 10], [13, 10, 0]] \<lparr> store = 1, offset = 0, blength = 2 \<rparr> = [13, 10] \<and>
   dos2unix zeros [[13, 13, 10], [13, 10, 0]] (Buf \<lparr> store = 1, offset = 0, blength = 2 \<rparr>) =
     Inr (Buf \<lparr> store = 2, offset = 0, blength = 1 \<rparr>, [[13, 13, 10], [13, 10, 0], [10, 0]]) \<and>
   bytes_of [[13, 13, 10], [13, 10, 0], [10, 0]] \<lparr> store = 2, offset = 0, blength = 1 \<rparr> = [10] \<and>
   [13, 10] \<noteq> ([10] :: byte list)"
  by (simp add: buffer_eval zeros_def CR_def LF_def)

text \<open>
  C2, as amended. For a string and for a byte sequence \<open>x\<close>, \<^verbatim>\<open>dos2unix\<close> returns \<open>x\<close>
  with its pairs replaced, which is \<open>x\<close> itself when \<open>x\<close> contains no pair \<open>CR LF\<close>:
  normalising content without a pair is a no-op. Normalising the result once more returns
  the same content exactly when \<open>x\<close> contains no \<open>CR\<close> immediately followed by a pair
  \<open>CR LF\<close> (\<open>has_crcrlf\<close>, by positions in \<open>has_crcrlf_nth\<close>). Both passes return, and
  a string pass leaves the heap as it is.
\<close>

theorem dos2unix_twice_iff_no_crcrlf:
  assumes "valid_buffer h b"
  shows "(\<exists>s'. dos2unix junk h (Str s) = Inr (Str s', h) \<and>
            s' = replace_crlf CR LF s \<and>
            (\<not> has_crlf CR LF s \<longrightarrow> s' = s) \<and>
            (\<exists>s''. dos2unix junk' h (Str s') = Inr (Str s'', h) \<and>
               (s'' = s' \<longleftrightarrow> \<not> has_crcrlf CR LF s))) \<and>
         (\<exists>r h'. dos2unix junk h (Buf b) = Inr (Buf r, h') \<and>
            bytes_of h' r = normalize_spec (bytes_of h b) \<and>
            (\<not> has_crlf 0x0D 0x0A (bytes_of h b) \<longrightarrow> bytes_of h' r = bytes_of h b) \<and>
            (\<exists>r' h''. dos2unix junk' h' (Buf r) = Inr (Buf r', h'') \<and>
               (bytes_of h'' r' = bytes_of h' r \<longleftrightarrow> \<not> has_crcrlf 0x0D 0x0A (bytes_of h b))))"
proof
  have "CR \<noteq> LF" by (simp add: CR_def LF_def)
  then show "\<exists>s'. dos2unix junk h (Str s) = Inr (Str s', h) \<and>
            s' = replace_crlf CR LF s \<and>
            (\<not> has_crlf CR LF s \<longrightarrow> s' = s) \<and>
            (\<exists>s''. dos2unix junk' h (Str s') = Inr (Str s'', h) \<and>
               (s'' = s' \<longleftrightarrow> \<not> has_crcrlf CR LF s))"
    by (simp add: dos2unix_Str replace_crlf_idem_iff replace_crlf_id)
next
  from dos2unix_Buf [OF assms, of junk] obtain rb r where
    r: "dos2unix junk h (Buf b) = Inr (Buf r, h @ [rb])" "valid_buffer (h @ [rb]) r"
      "bytes_of (h @ [rb]) r = normalize_spec (bytes_of h b)"
    by blast
  from dos2unix_Buf [OF r(2), of junk'] obtain rb' r' where
    r': "dos2unix junk' (h @ [rb]) (Buf r) = Inr (Buf r', h @ [rb] @ [rb'])"
      "bytes_of (h @ [rb] @ [rb']) r' = normalize_spec (bytes_of (h @ [rb]) r)"
    by auto
  have "(13 :: byte) \<noteq> 10" by simp
  then have "bytes_of (h @ [rb] @ [rb']) r' = bytes_of (h @ [rb]) r
      \<longleftrightarrow> \<not> has_crcrlf 0x0D 0x0A (bytes_of h b)"
    unfolding r'(2) r(3) normalize_spec_def by (rule replace_crlf_idem_iff)
  moreover have "\<not> has_crlf 0x0D 0x0A (bytes_of h b) \<longrightarrow>
      bytes_of (h @ [rb]) r = bytes_of h b"
    unfolding r(3) normalize_spec_def by (simp add: replace_crlf_id)
  ultimately
  show "\<exists>r h'. dos2unix junk h (Buf b) = Inr (Buf r, h') \<and>
            bytes_of h' r = normalize_spec (bytes_of h b) \<and>
            (\<not> has_crlf 0x0D 0x0A (bytes_of h b) \<longrightarrow> bytes_of h' r = bytes_of h b) \<and>
            (\<exists>r' h''. dos2unix junk' h' (Buf r) = Inr (Buf r', h'') \<and>
               (bytes_of h'' r' = bytes_of h' r \<longleftrightarrow> \<not> has_crcrlf 0x0D 0x0A (bytes_of h b)))"
    using r(1,3) r'(1) by blast
qed

theorem dos2unix_twice_iff_no_crcrlf_witness:
  "valid_buffer [[0x61, 0x0D, 0x0A, 0x62]] \<lparr> store = 0, offset = 0, blength = 4 \<rparr> \<and>
   \<not> has_crcrlf CR LF (''a'' @ [CR, LF] @ ''b'') \<and>
   \<not> has_crcrlf 0x0D 0x0A (bytes_of [[0x61, 0x0D, 0x0A, 0x62]] \<lparr> store = 0, offset = 0, blength = 4 \<rparr>) \<and>
   (\<exists>s'. dos2unix zeros [[0x61, 0x0D, 0x0A, 0x62]] (Str (''a'' @ [CR, LF] @ ''b'')) =
            Inr (Str s', [[0x61, 0x0D, 0x0A, 0x62]]) \<and>
          s' = ''a'' @ [LF] @ ''b'' \<and>
          dos2unix zeros [[0x61, 0x0D, 0x0A, 0x62]] (Str s') =
            Inr (Str s', [[0x61, 0x0D, 0x0A, 0x62]])) \<and>
   (\<exists>r h' r' h''.
      dos2unix zeros [[0x61, 0x0D, 0x0A, 0x62]] (Buf \<lparr> store = 0, offset = 0, blength = 4 \<rparr>) =
        Inr (Buf r, h') \<and>
      bytes_of h' r = [0x61, 0x0A, 0x62] \<and>
      dos2unix zeros h' (Buf r) = Inr (Buf r', h'') \<and>
      bytes_of h'' r' = bytes_of h' r) \<and>
   valid_buffer [[0x41, 0x0D, 0x42]] \<lparr> store = 0, offset = 0, blength = 3 \<rparr> \<and>
   \<not> has_crlf CR LF (''A'' @ [CR] @ ''B'') \<and>
   \<not> has_crlf 0x0D 0x0A (bytes_of [[0x41, 0x0D, 0x42]] \<lparr> store = 0, offset = 0, blength = 3 \<rparr>) \<and>
   dos2unix zeros [[0x41, 0x0D, 0x42]] (Str (''A'' @ [CR] @ ''B'')) =
     Inr (Str (''A'' @ [CR] @ ''B''), [[0x41, 0x0D, 0x42]]) \<and>
   (\<exists>r h'.
      dos2unix zeros [[0x41, 0x0D, 0x42]] (Buf \<lparr> store = 0, offset = 0, blength = 3 \<rparr>) =
        Inr (Buf r, h') \<and>
      bytes_of h' r = [0x41, 0x0D, 0x42])"
proof -
  let ?h = "[[0x61, 0x0D, 0x0A, 0x62 :: byte]]"
  let ?b = "\<lparr> store = 0, offset = 0, blength = 4 \<rparr>"
  let ?s = "''a'' @ [CR, LF] @ ''b''"
  have v: "valid_buffer ?h ?b" by (simp add: valid_buffer_def)
  have n1: "\<not> has_crcrlf CR LF ?s" by (simp add: CR_def LF_def)
  have n2: "\<not> has_crcrlf 0x0D 0x0A (bytes_of ?h ?b)" by (simp add: bytes_of_def)
  have e1: "replace_crlf CR LF ?s = ''a'' @ [LF] @ ''b''" by (simp add: CR_def LF_def)
  have e2: "normalize_spec (bytes_of ?h ?b) = [0x61, 0x0A, 0x62]"
    by (simp add: normalize_spec_def bytes_of_def)
  from dos2unix_twice_iff_no_crcrlf [OF v, of zeros ?s zeros]
  have "\<exists>s'. dos2unix zeros ?h (Str ?s) = Inr (Str s', ?h) \<and>
            s' = ''a'' @ [LF] @ ''b'' \<and>
            (\<exists>s''. dos2unix zeros ?h (Str s') = Inr (Str s'', ?h) \<and> s'' = s')"
    and "\<exists>r h'. dos2unix zeros ?h (Buf ?b) = Inr (Buf r, h') \<and>
            bytes_of h' r = [0x61, 0x0A, 0x62] \<and>
            (\<exists>r' h''. dos2unix zeros h' (Buf r) = Inr (Buf r', h'') \<and>
               bytes_of h'' r' = bytes_of h' r)"
    unfolding eq_True [THEN iffD2, OF n1] eq_True [THEN iffD2, OF n2] e1 e2 by blast+
  then have first: "(\<exists>s'. dos2unix zeros ?h (Str ?s) = Inr (Str s', ?h) \<and>
          s' = ''a'' @ [LF] @ ''b'' \<and>
          dos2unix zeros ?h (Str s') = Inr (Str s', ?h)) \<and>
       (\<exists>r h' r' h''. dos2unix zeros ?h (Buf ?b) = Inr (Buf r, h') \<and>
          bytes_of h' r = [0x61, 0x0A, 0x62] \<and>
          dos2unix zeros h' (Buf r) = Inr (Buf r', h'') \<and>
          bytes_of h'' r' = bytes_of h' r)"
    by blast
  let ?g = "[[0x41, 0x0D, 0x42 :: byte]]"
  let ?c = "\<lparr> store = 0, offset = 0, blength = 3 \<rparr>"
  let ?t = "''A'' @ [CR] @ ''B''"
  have w: "valid_buffer ?g ?c" by (simp add: valid_buffer_def)
  have p1: "\<not> has_crlf CR LF ?t" by (simp add: CR_def LF_def)
  have p2: "\<not> has_crlf 0x0D 0x0A (bytes_of ?g ?c)" by (simp add: bytes_of_def)
  have e3: "bytes_of ?g ?c = [0x41, 0x0D, 0x42]" by (simp add: bytes_of_def)
  from dos2unix_twice_iff_no_crcrlf [OF w, of zeros ?t zeros]
  have "\<exists>s'. dos2unix zeros ?g (Str ?t) = Inr (Str s', ?g) \<and>
            (\<not> has_crlf CR LF ?t \<longrightarrow> s' = ?t)"
    and "\<exists>r h'. dos2unix zeros ?g (Buf ?c) = Inr (Buf r, h') \<and>
            (\<not> has_crlf 0x0D 0x0A (bytes_of ?g ?c) \<longrightarrow> bytes_of h' r = bytes_of ?g ?c)"
    by blast+
  with p1 p2 have second: "dos2unix zeros ?g (Str ?t) = Inr (Str ?t, ?g) \<and>
       (\<exists>r h'. dos2unix zeros ?g (Buf ?c) = Inr (Buf r, h') \<and>
          bytes_of h' r = [0x41, 0x0D, 0x42])"
    unfolding e3 by blast
  from first second v n1 n2 w p1 p2 show ?thesis by blast
qed

text \<open>
  C3. For every byte sequence \<open>b\<close> the Buffer that \<^verbatim>\<open>dos2unix\<close> returns is at most as
  long as \<open>b\<close>; it is as long as \<open>b\<close> exactly when \<open>b\<close> contains no pair
  \<open>0x0D 0x0A\<close>, and then it has the bytes of \<open>b\<close>.
\<close>

theorem dos2unix_Buffer_length:
  assumes "valid_buffer h b"
  shows "\<exists>r h'. dos2unix junk h (Buf b) = Inr (Buf r, h') \<and>
           blength r \<le> blength b \<and>
           (blength r = blength b \<longleftrightarrow> \<not> has_crlf 0x0D 0x0A (bytes_of h b)) \<and>
           (\<not> has_crlf 0x0D 0x0A (bytes_of h b) \<longrightarrow> bytes_of h' r = bytes_of h b)"
proof -
  from dos2unix_Buf [OF assms, of junk] obtain rb r where
    r: "dos2unix junk h (Buf b) = Inr (Buf r, h @ [rb])" "valid_buffer (h @ [rb]) r"
      "bytes_of (h @ [rb]) r = normalize_spec (bytes_of h b)" "blength r \<le> blength b"
    by blast
  let ?src = "bytes_of h b"
  have len: "blength r = length (normalize_spec ?src)" "blength b = length ?src"
    using length_bytes_of [OF r(2)] length_bytes_of [OF assms] r(3) by simp_all
  have "blength r = blength b \<longleftrightarrow> \<not> has_crlf 0x0D 0x0A ?src"
    using replace_crlf_shorter [of 13 10 ?src] replace_crlf_id [of 13 10 ?src]
    unfolding len normalize_spec_def by auto
  moreover have "\<not> has_crlf 0x0D 0x0A ?src \<longrightarrow> bytes_of (h @ [rb]) r = ?src"
    unfolding r(3) normalize_spec_def by (simp add: replace_crlf_id)
  ultimately show ?thesis using r(1,4) by blast
qed

theorem dos2unix_Buffer_length_witness:
  "valid_buffer [[0x41, 0x0D, 0x42]] \<lparr> store = 0, offset = 0, blength = 3 \<rparr> \<and>
   \<not> has_crlf 0x0D 0x0A (bytes_of [[0x41, 0x0D, 0x42]] \<lparr> store = 0, offset = 0, blength = 3 \<rparr>) \<and>
   (\<exists>r h'. dos2unix (\<lambda>i. 0) [[0x41, 0x0D, 0x42]] (Buf \<lparr> store = 0, offset = 0, blength = 3 \<rparr>) =
              Inr (Buf r, h') \<and>
            blength r = 3 \<and> bytes_of h' r = [0x41, 0x0D, 0x42]) \<and>
   valid_buffer [[0x61, 0x0D, 0x0A]] \<lparr> store = 0, offset = 0, blength = 3 \<rparr> \<and>
   has_crlf 0x0D 0x0A (bytes_of [[0x61, 0x0D, 0x0A]] \<lparr> store = 0, offset = 0, blength = 3 \<rparr>) \<and>
   (\<exists>r h'. dos2unix (\<lambda>i. 0) [[0x61, 0x0D, 0x0A]] (Buf \<lparr> store = 0, offset = 0, blength = 3 \<rparr>) =
              Inr (Buf r, h') \<and>
            blength r < 3)"
proof -
  let ?h = "[[0x41, 0x0D, 0x42 :: byte]]"
  let ?g = "[[0x61, 0x0D, 0x0A :: byte]]"
  let ?b = "\<lparr> store = 0, offset = 0, blength = 3 \<rparr>"
  have v: "valid_buffer ?h ?b" by (simp add: valid_buffer_def)
  have n: "\<not> has_crlf 0x0D 0x0A (bytes_of ?h ?b)" by (simp add: bytes_of_def)
  have b: "bytes_of ?h ?b = [0x41, 0x0D, 0x42]" by (simp add: bytes_of_def)
  from dos2unix_Buffer_length [OF v, of "\<lambda>i. 0"] obtain r h' where
    "dos2unix (\<lambda>i. 0) ?h (Buf ?b) = Inr (Buf r, h')"
    "blength r = blength ?b \<longleftrightarrow> \<not> has_crlf 0x0D 0x0A (bytes_of ?h ?b)"
    "\<not> has_crlf 0x0D 0x0A (bytes_of ?h ?b) \<longrightarrow> bytes_of h' r = bytes_of ?h ?b"
    by blast
  with n b have same: "dos2unix (\<lambda>i. 0) ?h (Buf ?b) = Inr (Buf r, h') \<and>
      blength r = 3 \<and> bytes_of h' r = [0x41, 0x0D, 0x42]"
    by simp
  have w: "valid_buffer ?g ?b" by (simp add: valid_buffer_def)
  have p: "has_crlf 0x0D 0x0A (bytes_of ?g ?b)" by (simp add: bytes_of_def)
  from dos2unix_Buffer_length [OF w, of "\<lambda>i. 0"] obtain s g' where
    "dos2unix (\<lambda>i. 0) ?g (Buf ?b) = Inr (Buf s, g')"
    "blength s \<le> blength ?b"
    "blength s = blength ?b \<longleftrightarrow> \<not> has_crlf 0x0D 0x0A (bytes_of ?g ?b)"
    by blast
  with p have shorter: "dos2unix (\<lambda>i. 0) ?g (Buf ?b) = Inr (Buf s, g') \<and> blength s < 3"
    by simp
  from same shorter show ?thesis using v n w p by blast
qed

text \<open>
  C8. \<^verbatim>\<open>dos2unix\<close> returns every falsy argument itself and leaves the heap as it is; so
  for \<^verbatim>\<open>null\<close> and for the empty string. An empty Buffer is an object and not falsy:
  it goes through the Buffer case, and the Buffer returned for it is empty as well.
\<close>

theorem dos2unix_falsy_identity:
  "(falsy v \<longrightarrow> dos2unix junk h v = Inr (v, h)) \<and>
   dos2unix junk h Null = Inr (Null, h) \<and>
   dos2unix junk h (Str []) = Inr (Str [], h) \<and>
   (valid_buffer h b \<and> blength b = 0 \<longrightarrow>
      (\<exists>r h'. dos2unix junk h (Buf b) = Inr (Buf r, h') \<and> bytes_of h' r = bytes_of h b))"
proof -
  have "\<exists>r h'. dos2unix junk h (Buf b) = Inr (Buf r, h') \<and> bytes_of h' r = bytes_of h b"
    if v: "valid_buffer h b" and e: "blength b = 0"
  proof -
    from dos2unix_Buf [OF v, of junk] obtain rb r where
      r: "dos2unix junk h (Buf b) = Inr (Buf r, h @ [rb])"
        "bytes_of (h @ [rb]) r = normalize_spec (bytes_of h b)"
      by blast
    from e have "bytes_of h b = []" by (simp add: bytes_of_def)
    with r show ?thesis by (simp add: normalize_spec_def)
  qed
  then show ?thesis by (simp add: dos2unix_def)
qed

theorem dos2unix_falsy_identity_witness:
  "falsy Undefined \<and>
   dos2unix (\<lambda>i. 0) [[1, 2]] Undefined = Inr (Undefined, [[1, 2]]) \<and>
   dos2unix (\<lambda>i. 0) [[1, 2]] Null = Inr (Null, [[1, 2]]) \<and>
   dos2unix (\<lambda>i. 0) [[1, 2]] (Str []) = Inr (Str [], [[1, 2]]) \<and>
   valid_buffer [[1, 2]] \<lparr> store = 0, offset = 1, blength = 0 \<rparr> \<and>
   (\<exists>r h'. dos2unix (\<lambda>i. 0) [[1, 2]] (Buf \<lparr> store = 0, offset = 1, blength = 0 \<rparr>) =
              Inr (Buf r, h') \<and> bytes_of h' r = [])"
proof -
  let ?b = "\<lparr> store = 0, offset = 1, blength = 0 \<rparr>"
  have f: "falsy Undefined" by simp
  have v: "valid_buffer [[1, 2]] ?b" by (simp add: valid_buffer_def)
  have e: "bytes_of [[1, 2]] ?b = []" by (simp add: bytes_of_def)
  from dos2unix_falsy_identity [of Undefined "\<lambda>i. 0" "[[1, 2]]" ?b] f v e
  show ?thesis by simp
qed

text \<open>
  C9. For every Buffer \<open>b\<close>, \<^verbatim>\<open>dos2unix\<close> changes no store that the heap had before the
  call, so \<open>b\<close> shows the same bytes after it; the heap grows by one store, and the Buffer
  returned is a view on this new store, never \<open>b\<close>, whether or not \<open>b\<close> contains a pair.
\<close>

theorem dos2unix_Buffer_frame:
  assumes "valid_buffer h b"
  shows "\<exists>r h'. dos2unix junk h (Buf b) = Inr (Buf r, h') \<and>
           length h' = Suc (length h) \<and> take (length h) h' = h \<and>
           bytes_of h' b = bytes_of h b \<and>
           store r = length h \<and> store r \<noteq> store b \<and> r \<noteq> b"
proof -
  from dos2unix_Buf [OF assms, of junk] obtain rb r where
    r: "dos2unix junk h (Buf b) = Inr (Buf r, h @ [rb])" "store r = length h"
    by blast
  from assms have "store b < length h" by (simp add: valid_buffer_def)
  with r(2) have "store r \<noteq> store b" "r \<noteq> b" by auto
  moreover have "bytes_of (h @ [rb]) b = bytes_of h b" using assms by (rule bytes_of_frame)
  ultimately show ?thesis using r by auto
qed

theorem dos2unix_Buffer_frame_witness:
  "valid_buffer [[0x41, 0x0D, 0x42]] \<lparr> store = 0, offset = 0, blength = 3 \<rparr> \<and>
   (\<exists>r h'. dos2unix (\<lambda>i. 0xAA) [[0x41, 0x0D, 0x42]] (Buf \<lparr> store = 0, offset = 0, blength = 3 \<rparr>) =
              Inr (Buf r, h') \<and>
            length h' = 2 \<and> h' ! 0 = [0x41, 0x0D, 0x42] \<and> store r = 1)"
proof -
  let ?h = "[[0x41, 0x0D, 0x42 :: byte]]"
  let ?b = "\<lparr> store = 0, offset = 0, blength = 3 \<rparr>"
  have v: "valid_buffer ?h ?b" by (simp add: valid_buffer_def)
  from dos2unix_Buffer_frame [OF v, of "\<lambda>i. 0xAA"] obtain r h' where
    r: "dos2unix (\<lambda>i. 0xAA) ?h (Buf ?b) = Inr (Buf r, h')"
    "length h' = Suc (length ?h)" "take (length ?h) h' = ?h" "store r = length ?h"
    by blast
  from r(3) have "(take (length ?h) h') ! 0 = ?h ! 0" by simp
  with r(2) have "h' ! 0 = [0x41, 0x0D, 0x42]" by simp
  with r v show ?thesis by auto
qed

subsection \<open>Commands\<close>

text \<open>
  C7. \<^verbatim>\<open>shell(args, options, timeout)\<close> is \<^verbatim>\<open>adb(['shell'] + args, options, timeout)\<close>,
  and \<^verbatim>\<open>adb\<close> calls \<^verbatim>\<open>scheduleExec\<close> with the scheduler and the command of the
  object, with \<^verbatim>\<open>-s\<close> and the serial in front of the arguments, with the options, and
  with the given timeout, or 60000 where none (or 0) is given.
\<close>

theorem shell_adb_dispatch:
  "shell scheduleExec this args options timeout =
     adb scheduleExec this ([''shell''] @ args) options timeout \<and>
   adb scheduleExec this args options timeout =
     scheduleExec (app this) (adbCommand this) ([''-s'', serial this] @ args) options
       (case timeout of None \<Rightarrow> 60000 | Some t \<Rightarrow> if t = 0 then 60000 else t)"
  by (cases timeout)
    (simp_all add: shell_def adb_def command_def timeout_or_default_def DEFAULT_TIMEOUT_def)

theorem shell_adb_dispatch_witness:
  "shell (\<lambda>(a :: unit) c args (opts :: unit option) t. (c, args, opts, t))
     \<lparr> app = (), adbCommand = ''adb'', serial = ''HT9CW'' \<rparr> [''ps'', ''tcpdump''] None (Some 5000) =
     (''adb'', [''-s'', ''HT9CW'', ''shell'', ''ps'', ''tcpdump''], None, 5000) \<and>
   adb (\<lambda>(a :: unit) c args (opts :: unit option) t. (c, args, opts, t))
     \<lparr> app = (), adbCommand = ''adb'', serial = ''HT9CW'' \<rparr> [''logcat'', ''-d''] None None =
     (''adb'', [''-s'', ''HT9CW'', ''logcat'', ''-d''], None, 60000)"
proof -
  let ?dev = "\<lparr> app = (), adbCommand = ''adb'', serial = ''HT9CW'' \<rparr>"
  let ?rec = "\<lambda>(a :: unit) (c :: string) (args :: string list) (opts :: unit option) (t :: int).
     (c, args, opts, t)"
  from shell_adb_dispatch [of ?rec ?dev "[''ps'', ''tcpdump'']" None "Some 5000"]
    shell_adb_dispatch [of ?rec ?dev "[''shell'', ''ps'', ''tcpdump'']" None "Some 5000"]
    shell_adb_dispatch [of ?rec ?dev "[''logcat'', ''-d'']" None None]
  show ?thesis by simp
qed

text \<open>
  C10. With a falsy timeout, \<^verbatim>\<open>undefined\<close> or \<open>0\<close>, each of \<^verbatim>\<open>command_\<close>,
  \<^verbatim>\<open>adb\<close> and \<^verbatim>\<open>shell\<close> calls \<^verbatim>\<open>scheduleExec\<close> with the timeout 60000. In the
  witness \<^verbatim>\<open>scheduleExec\<close> returns the arguments it is called with.
\<close>

theorem falsy_timeout_is_default:
  assumes "falsy_timeout timeout"
  shows "command scheduleExec this args options timeout =
           scheduleExec (app this) (adbCommand this) args options 60000 \<and>
         adb scheduleExec this args options timeout =
           scheduleExec (app this) (adbCommand this) ([''-s'', serial this] @ args) options 60000 \<and>
         shell scheduleExec this args options timeout =
           scheduleExec (app this) (adbCommand this)
             ([''-s'', serial this, ''shell''] @ args) options 60000"
  using assms
  by (cases timeout)
    (simp_all add: falsy_timeout_def shell_def adb_def command_def timeout_or_default_def
      DEFAULT_TIMEOUT_def)

theorem falsy_timeout_is_default_witness:
  "falsy_timeout (Some 0) \<and> falsy_timeout None \<and>
   command (\<lambda>(a :: unit) c args (opts :: unit option) t. (c, args, opts, t))
     \<lparr> app = (), adbCommand = ''adb'', serial = ''HT9CW'' \<rparr> [''devices''] None (Some 0) =
     (''adb'', [''devices''], None, 60000) \<and>
   adb (\<lambda>(a :: unit) c args (opts :: unit option) t. (c, args, opts, t))
     \<lparr> app = (), adbCommand = ''adb'', serial = ''HT9CW'' \<rparr> [''logcat'', ''-d''] None (Some 0) =
     (''adb'', [''-s'', ''HT9CW'', ''logcat'', ''-d''], None, 60000) \<and>
   shell (\<lambda>(a :: unit) c args (opts :: unit option) t. (c, args, opts, t))
     \<lparr> app = (), adbCommand = ''adb'', serial = ''HT9CW'' \<rparr> [''ps''] None (Some 0) =
     (''adb'', [''-s'', ''HT9CW'', ''shell'', ''ps''], None, 60000) \<and>
   shell (\<lambda>(a :: unit) c args (opts :: unit option) t. (c, args, opts, t))
     \<lparr> app = (), adbCommand = ''adb'', serial = ''HT9CW'' \<rparr> [''ps''] None None =
     (''adb'', [''-s'', ''HT9CW'', ''shell'', ''ps''], None, 60000)"
proof -
  let ?dev = "\<lparr> app = (), adbCommand = ''adb'', serial = ''HT9CW'' \<rparr>"
  let ?rec = "\<lambda>(a :: unit) (c :: string) (args :: string list) (opts :: unit option) (t :: int).
     (c, args, opts, t)"
  have z: "falsy_timeout (Some 0)" and u: "falsy_timeout None"
    by (simp_all add: falsy_timeout_def)
  from falsy_timeout_is_default [OF z, of ?rec ?dev "[''devices'']" None]
    falsy_timeout_is_default [OF z, of ?rec ?dev "[''logcat'', ''-d'']" None]
    falsy_timeout_is_default [OF z, of ?rec ?dev "[''ps'']" None]
    falsy_timeout_is_default [OF u, of ?rec ?dev "[''ps'']" None]
    z u
  show ?thesis by simp
qed




subsection \<open>The process listing\<close>

text \<open>
  C5. When the stdout of \<^verbatim>\<open>ps\<close> splits into no line, or its first line does not begin
  with \<^verbatim>\<open>'USER '\<close>, \<^verbatim>\<open>getPidsOfProcess\<close> is rejected with the error
  \<^verbatim>\<open>ps command failed\<close> that carries the stdout, and so returns no pid. (By
  \<open>split_lines_nonempty\<close> there is always a first line.)
\<close>

theorem getPidsOfProcess_header_check:
  assumes "scheduleExec (app this) (adbCommand this)
             [''-s'', serial this, ''shell'', ''ps'', name] None DEFAULT_TIMEOUT = Inr stdout"
    and "lines = split re_newline stdout"
    and "length lines = 0 \<or> \<not> prefix ''USER '' (lines ! 0)"
  shows "getPidsOfProcess scheduleExec this name = Inl (PsCommandFailed stdout)"
  using assms
  by (cases "split re_newline stdout")
    (simp_all add: getPidsOfProcess_def shell_def adb_def command_def then_do_def
      timeout_or_default_def parse_ps_def indexOf_0_iff)

theorem getPidsOfProcess_header_check_witness:
  "split re_newline (''error: device not found'' @ [CR, LF]) = [''error: device not found'', []] \<and>
   \<not> prefix ''USER '' ([''error: device not found'', []] ! 0) \<and>
   getPidsOfProcess (\<lambda>(a :: unit) c args (opts :: unit option) t.
       Inr (''error: device not found'' @ [CR, LF]))
     \<lparr> app = (), adbCommand = ''adb'', serial = ''HT9CW'' \<rparr> ''tcpdump'' =
   (Inl (PsCommandFailed (''error: device not found'' @ [CR, LF])) :: unit error + string list)"
proof -
  let ?out = "''error: device not found'' @ [CR, LF]"
  have l: "split re_newline ?out = [''error: device not found'', []]"
    by (simp add: split_def CR_def LF_def)
  have n: "\<not> prefix ''USER '' ([''error: device not found'', []] ! 0)" by simp
  from getPidsOfProcess_header_check [of
      "\<lambda>(a :: unit) c args (opts :: unit option) t. Inr ?out"
      "\<lparr> app = (), adbCommand = ''adb'', serial = ''HT9CW'' \<rparr>" "''tcpdump''" ?out,
      OF refl l [symmetric] disjI2 [OF n]] l n
  show ?thesis by simp
qed

text \<open>
  C6. When the stdout of \<^verbatim>\<open>ps\<close> passes the header check, \<^verbatim>\<open>getPidsOfProcess\<close> does
  what \<open>ps_spec\<close> says, which is written without \<open>split\<close> and the regular expressions:
  with the lines of the output (\<open>lines_on_newline\<close>), without the header line and the
  blank lines, and with every other line cut into its fields at the runs of white space
  (\<open>fields_on_whitespace\<close>: no field holds white space, and the line is its fields with
  a run of white space between each two, \<open>fields_no_whitespace\<close> and
  \<open>fields_on_whitespace_runs\<close>), it is rejected with the index of the first line that
  has not nine fields, and the stdout; with no such line it resolves to field 1 of every
  line, in the order of the lines. As in \<^verbatim>\<open>split\<close>, white space at the end of a line
  has an empty field after it, which counts. The witness has columns set apart by several
  blanks and by a tab, lines that end in \<^verbatim>\<open>\r\n\<close> and in \<^verbatim>\<open>\n\<close>, and a blank line.
\<close>

theorem getPidsOfProcess_rows:
  assumes "scheduleExec (app this) (adbCommand this)
             [''-s'', serial this, ''shell'', ''ps'', name] None DEFAULT_TIMEOUT = Inr stdout"
    and "header_ok stdout"
  shows "getPidsOfProcess scheduleExec this name = ps_spec stdout"
  using assms(1) parse_ps_refines_spec [OF assms(2)]
  by (simp add: getPidsOfProcess_def shell_def adb_def command_def then_do_def
      timeout_or_default_def)

theorem getPidsOfProcess_rows_witness:
  "header_ok (''USER     PID   PPID  VSIZE  RSS     WCHAN    PC         NAME'' @ [CR, LF] @
              ''root      1234  1     656    372   c00d3f58 0000d5bc S /system/xbin/tcpdump'' @
              [CR, LF] @ [LF] @
              ''shell'' @ [CHR 0x09] @ ''77 1 700   400 ffffffff 00000000 S  tcpdump'' @ [LF]) \<and>
   getPidsOfProcess
     (resolves_with
        (''USER     PID   PPID  VSIZE  RSS     WCHAN    PC         NAME'' @ [CR, LF] @
         ''root      1234  1     656    372   c00d3f58 0000d5bc S /system/xbin/tcpdump'' @
         [CR, LF] @ [LF] @
         ''shell'' @ [CHR 0x09] @ ''77 1 700   400 ffffffff 00000000 S  tcpdump'' @ [LF]))
     device ''tcpdump'' = Inr [''1234'', ''77''] \<and>
   header_ok (''USER PID'' @ [LF] @ [LF] @ ''root  1234 1 656 372'' @ [LF]) \<and>
   getPidsOfProcess
     (resolves_with (''USER PID'' @ [LF] @ [LF] @ ''root  1234 1 656 372'' @ [LF]))
     device ''tcpdump'' =
     Inl (PsParseFailed 2 (''USER PID'' @ [LF] @ [LF] @ ''root  1234 1 656 372'' @ [LF])) \<and>
   header_ok (''USER PID'' @ [LF] @ ''root 1234 1 656 372 c00d3f58 0000d5bc S tcpdump '') \<and>
   getPidsOfProcess
     (resolves_with (''USER PID'' @ [LF] @ ''root 1234 1 656 372 c00d3f58 0000d5bc S tcpdump ''))
     device ''tcpdump'' =
     Inl (PsParseFailed 1
            (''USER PID'' @ [LF] @ ''root 1234 1 656 372 c00d3f58 0000d5bc S tcpdump ''))"
proof -
  let ?good = "''USER     PID   PPID  VSIZE  RSS     WCHAN    PC         NAME'' @ [CR, LF] @
      ''root      1234  1     656    372   c00d3f58 0000d5bc S /system/xbin/tcpdump'' @
      [CR, LF] @ [LF] @
      ''shell'' @ [CHR 0x09] @ ''77 1 700   400 ffffffff 00000000 S  tcpdump'' @ [LF]"
  let ?bad = "''USER PID'' @ [LF] @ [LF] @ ''root  1234 1 656 372'' @ [LF]"
  let ?trail = "''USER PID'' @ [LF] @ ''root 1234 1 656 372 c00d3f58 0000d5bc S tcpdump ''"
  note ev = ps_spec_def header_ok_def data_rows_def rows_from_def
    split_newline_lines [symmetric] split_spaces_fields [symmetric]
    split_def re_spaces_def is_space_def CR_def LF_def enumerate_eq_zip upt_rec
  have run: "resolves_with out a c args opts t = Inr out" for out a c args opts t
    by (simp add: resolves_with_def)
  have h1: "header_ok ?good" by (simp add: ev)
  have h2: "header_ok ?bad" by (simp add: ev)
  have h3: "header_ok ?trail" by (simp add: ev)
  have s1: "ps_spec ?good = (Inr [''1234'', ''77''] :: string error + string list)"
    by (simp add: ev)
  have s2: "ps_spec ?bad = (Inl (PsParseFailed 2 ?bad) :: string error + string list)"
    by (simp add: ev)
  have s3: "ps_spec ?trail = (Inl (PsParseFailed 1 ?trail) :: string error + string list)"
    by (simp add: ev)
  have "getPidsOfProcess (resolves_with ?good) device ''tcpdump'' = Inr [''1234'', ''77'']"
    using getPidsOfProcess_rows [of "resolves_with ?good" device "''tcpdump''" ?good,
        OF run h1] s1
    by (simp only:)
  moreover have "getPidsOfProcess (resolves_with ?bad) device ''tcpdump'' =
      Inl (PsParseFailed 2 ?bad)"
    using getPidsOfProcess_rows [of "resolves_with ?bad" device "''tcpdump''" ?bad,
        OF run h2] s2
    by (simp only:)
  moreover have "getPidsOfProcess (resolves_with ?trail) device ''tcpdump'' =
      Inl (PsParseFailed 1 ?trail)"
    using getPidsOfProcess_rows [of "resolves_with ?trail" device "''tcpdump''" ?trail,
        OF run h3] s3
    by (simp only:)
  ultimately show ?thesis using h1 h2 h3 by (simp only: simp_thms)
qed

end
